theory Spec2Isabelle
  imports Complex_Main "HOL-Library.Word"
begin

unbundle bit_operations_syntax

section \<open>IEEE-754 binary formats as bit patterns\<close>

text \<open>
  The matchers of \<^verbatim>\<open>catch_matchers_floating_point.cpp\<close> work on \<^verbatim>\<open>float\<close> and
  \<^verbatim>\<open>double\<close>, and \<^verbatim>\<open>convert\<close> reads their bits with \<^verbatim>\<open>memcpy\<close>. A floating-point value
  is therefore modelled by its bit pattern: a \<^verbatim>\<open>float\<close> is a 32-bit word, a \<^verbatim>\<open>double\<close> a 64-bit
  word, and a function template over \<^verbatim>\<open>FP\<close> is a function that is polymorphic in the word
  length. The top bit is the sign, the low \<open>fbits\<close> bits are the fraction and the bits in
  between the biased exponent.
\<close>

type_synonym float = "32 word"
type_synonym double = "64 word"

definition fbits :: "'a::len itself \<Rightarrow> nat" where
  \<comment> \<open>\<^verbatim>\<open>std::numeric_limits<FP>::digits - 1\<close>: 23 for \<^verbatim>\<open>float\<close>, 52 for \<^verbatim>\<open>double\<close>\<close>
  "fbits _ = (if LENGTH('a) = 32 then 23 else 52)"

definition emax :: "'a::len itself \<Rightarrow> nat" where
  \<comment> \<open>the exponent field with all bits set (255 and 2047): infinities and NaNs\<close>
  "emax _ = 2 ^ (LENGTH('a) - 1 - fbits TYPE('a)) - 1"

definition bias :: "'a::len itself \<Rightarrow> nat" where
  \<comment> \<open>127 and 1023\<close>
  "bias _ = emax TYPE('a) div 2"

definition sign :: "'a::len word \<Rightarrow> bool" where
  "sign x \<longleftrightarrow> 2 ^ (LENGTH('a) - 1) \<le> unat x"

definition mag :: "'a::len word \<Rightarrow> nat" where
  \<comment> \<open>the pattern without its sign bit\<close>
  "mag x = unat x mod 2 ^ (LENGTH('a) - 1)"

definition pack :: "bool \<Rightarrow> nat \<Rightarrow> 'a::len word" where
  \<comment> \<open>the pattern with sign \<open>s\<close> and the remaining bits \<open>m\<close>\<close>
  "pack s m = word_of_nat ((if s then 2 ^ (LENGTH('a) - 1) else 0) + m)"

definition expo :: "'a::len word \<Rightarrow> nat" where
  "expo x = mag x div 2 ^ fbits TYPE('a)"

definition fraction :: "'a::len word \<Rightarrow> nat" where
  "fraction x = mag x mod 2 ^ fbits TYPE('a)"

definition isnan :: "'a::len word \<Rightarrow> bool" where
  "isnan x \<longleftrightarrow> expo x = emax TYPE('a) \<and> fraction x \<noteq> 0"

definition isinf :: "'a::len word \<Rightarrow> bool" where
  "isinf x \<longleftrightarrow> expo x = emax TYPE('a) \<and> fraction x = 0"

definition isfinite :: "'a::len word \<Rightarrow> bool" where
  "isfinite x \<longleftrightarrow> expo x < emax TYPE('a)"

text \<open>
  The value of a pattern, as a multiple of the smallest positive value of the format
  (\<^verbatim>\<open>denorm_min\<close>, which is \<open>2 ^ -149\<close> for \<^verbatim>\<open>float\<close> and \<open>2 ^ -1074\<close> for \<^verbatim>\<open>double\<close>). Every
  finite value is an integer in this unit. The same formula puts an infinity one binade
  above the largest finite value, so that the order of the integers is the order of the
  extended reals the patterns stand for.
\<close>

definition umag :: "'a::len word \<Rightarrow> nat" where
  "umag x = (if expo x = 0 then fraction x
             else (2 ^ fbits TYPE('a) + fraction x) * 2 ^ (expo x - 1))"

definition units :: "'a::len word \<Rightarrow> int" where
  "units x = (if sign x then - int (umag x) else int (umag x))"

text \<open>The comparison operators of C++ on floating-point values: false when a NaN is involved.\<close>

definition flt :: "'a::len word \<Rightarrow> 'a word \<Rightarrow> bool" where
  "flt a b \<longleftrightarrow> (if isnan a \<or> isnan b then False else units a < units b)"

definition feq :: "'a::len word \<Rightarrow> 'a word \<Rightarrow> bool" where
  "feq a b \<longleftrightarrow> (if isnan a \<or> isnan b then False else units a = units b)"

definition fgt :: "'a::len word \<Rightarrow> 'a word \<Rightarrow> bool" where
  "fgt a b \<longleftrightarrow> flt b a"

definition fge :: "'a::len word \<Rightarrow> 'a word \<Rightarrow> bool" where
  "fge a b \<longleftrightarrow> (if isnan a \<or> isnan b then False else units b \<le> units a)"

text \<open>Unary minus and \<^verbatim>\<open>std::fabs\<close> act on the sign bit alone.\<close>

definition fneg :: "'a::len word \<Rightarrow> 'a word" where
  "fneg x = pack (\<not> sign x) (mag x)"

definition fabs :: "'a::len word \<Rightarrow> 'a word" where
  "fabs x = pack False (mag x)"

section \<open>Arithmetic: round to nearest, ties to even\<close>

text \<open>
  The margin matchers add and multiply \<^verbatim>\<open>double\<close>s, and the ULP matcher narrows a
  \<^verbatim>\<open>double\<close> to a \<^verbatim>\<open>float\<close>. IEEE-754 defines each of these as the exact result, rounded to
  the nearest value of the format, ties to the even fraction, and to an infinity beyond
  the largest finite value. A finite pattern stands for \<open>mant * 2 ^ uexp\<close> units.

  \<open>round_mag fb m e\<close> is the pattern (sign aside) nearest to \<open>m * 2 ^ e\<close> units, for an
  integer \<open>e\<close> of either sign. \<open>t\<close> is the number of low bits of \<open>m\<close> to drop, because they
  are below one unit or because only \<open>fb + 1\<close> significant bits are kept (when \<open>t\<close> is
  negative, \<open>m\<close> is shifted up instead); \<open>q\<close> is what remains, rounded on the dropped bits
  \<open>r\<close>; and \<open>q * 2 ^ (e + t)\<close> units have the pattern \<open>(e + t) * 2 ^ fb + q\<close>.
\<close>

definition mant :: "'a::len word \<Rightarrow> nat" where
  \<comment> \<open>the significand with its hidden bit\<close>
  "mant x = (if expo x = 0 then fraction x else 2 ^ fbits TYPE('a) + fraction x)"

definition uexp :: "'a::len word \<Rightarrow> nat" where
  "uexp x = expo x - 1"

definition smant :: "'a::len word \<Rightarrow> int" where
  "smant x = (if sign x then - int (mant x) else int (mant x))"

fun bitlen :: "nat \<Rightarrow> nat" where
  "bitlen n = (if n = 0 then 0 else 1 + bitlen (n div 2))"

definition round_mag :: "nat \<Rightarrow> nat \<Rightarrow> int \<Rightarrow> nat" where
  "round_mag fb m e =
    (if m = 0 then 0
     else let t = max (- e) (int (bitlen m) - int (fb + 1));
              q = m * 2 ^ nat (- t) div 2 ^ nat t;
              r = m mod 2 ^ nat t;
              q' = (if 2 ^ nat t < 2 * r \<or> (2 * r = 2 ^ nat t \<and> odd q) then q + 1 else q)
          in nat (e + t) * 2 ^ fb + q')"

definition infm :: "'a::len itself \<Rightarrow> nat" where
  \<comment> \<open>the pattern of \<open>+\<infinity>\<close>\<close>
  "infm _ = emax TYPE('a) * 2 ^ fbits TYPE('a)"

definition fround :: "bool \<Rightarrow> nat \<Rightarrow> int \<Rightarrow> 'a::len word" where
  \<comment> \<open>\<open>m * 2 ^ e\<close> units with sign \<open>s\<close>, rounded; an infinity on overflow\<close>
  "fround s m e = pack s (min (round_mag (fbits TYPE('a)) m e) (infm TYPE('a)))"

definition qnan :: "'a::len word" where
  \<comment> \<open>the NaN an invalid operation returns; only \<open>isnan\<close> of it is ever used\<close>
  "qnan = pack False (infm TYPE('a) + 2 ^ (fbits TYPE('a) - 1))"

definition fadd :: "'a::len word \<Rightarrow> 'a word \<Rightarrow> 'a word" where
  "fadd a b =
    (if isnan a \<or> isnan b then qnan
     else if isinf a then (if isinf b \<and> sign a \<noteq> sign b then qnan else a)
     else if isinf b then b
     else let k = min (uexp a) (uexp b);
              r = smant a * 2 ^ (uexp a - k) + smant b * 2 ^ (uexp b - k)
          in if r = 0 then pack (sign a \<and> sign b) 0
             else fround (r < 0) (nat \<bar>r\<bar>) (int k))"

definition fmul :: "'a::len word \<Rightarrow> 'a word \<Rightarrow> 'a word" where
  "fmul a b =
    (if isnan a \<or> isnan b then qnan
     else if isinf a \<or> isinf b then
       (if mant a = 0 \<or> mant b = 0 then qnan else pack (sign a \<noteq> sign b) (infm TYPE('a)))
     else fround (sign a \<noteq> sign b) (mant a * mant b)
            (int (uexp a + uexp b) - int (bias TYPE('a) + fbits TYPE('a) - 1)))"

definition fmax :: "'a::len word \<Rightarrow> 'a word \<Rightarrow> 'a word" where
  \<comment> \<open>\<^verbatim>\<open>std::max(a, b)\<close> is \<^verbatim>\<open>(a < b) ? b : a\<close>\<close>
  "fmax a b = (if flt a b then b else a)"

definition to_float :: "double \<Rightarrow> float" where
  \<comment> \<open>\<^verbatim>\<open>static_cast<float>\<close>: a unit of \<^verbatim>\<open>double\<close> is \<open>2 ^ -925\<close> units of \<^verbatim>\<open>float\<close>\<close>
  "to_float x =
    (if isnan x then pack (sign x) (mag (qnan :: float))
     else if isinf x then pack (sign x) (infm TYPE(32))
     else fround (sign x) (mant x)
            (int (uexp x) - int (bias TYPE(64) + fbits TYPE(64) - (bias TYPE(32) + fbits TYPE(32)))))"

section \<open>Signed 64-bit arithmetic\<close>

text \<open>
  \<^verbatim>\<open>ulpDistance\<close> computes in \<^verbatim>\<open>int64_t\<close>. Signed overflow is undefined behaviour in C++, so an
  \<^verbatim>\<open>int64_t\<close> is an \<open>int\<close> and every operation checks that its result is representable; a
  result that is not is the fault \<open>SignedOverflow\<close>. A failed \<^verbatim>\<open>assert\<close> is the fault
  \<open>AssertionFailed\<close>.
\<close>

datatype fault = SignedOverflow | AssertionFailed

definition and_then :: "fault + 'a \<Rightarrow> ('a \<Rightarrow> fault + 'b) \<Rightarrow> fault + 'b" where
  "and_then m f = (case m of Inl e \<Rightarrow> Inl e | Inr x \<Rightarrow> f x)"

definition lift2 :: "('a \<Rightarrow> 'b \<Rightarrow> fault + 'c) \<Rightarrow> fault + 'a \<Rightarrow> fault + 'b \<Rightarrow> fault + 'c" where
  "lift2 f m n =
     (case m of Inl e \<Rightarrow> Inl e
      | Inr x \<Rightarrow> (case n of Inl e \<Rightarrow> Inl e | Inr y \<Rightarrow> f x y))"

definition int64_range :: "int \<Rightarrow> bool" where
  "int64_range i \<longleftrightarrow> - (2 ^ 63) \<le> i \<and> i < 2 ^ 63"

definition chk64 :: "int \<Rightarrow> fault + int" where
  "chk64 i = (if int64_range i then Inr i else Inl SignedOverflow)"

definition add64 :: "int \<Rightarrow> int \<Rightarrow> fault + int" where
  "add64 x y = chk64 (x + y)"

definition sub64 :: "int \<Rightarrow> int \<Rightarrow> fault + int" where
  "sub64 x y = chk64 (x - y)"

definition neg64 :: "int \<Rightarrow> fault + int" where
  "neg64 x = chk64 (- x)"

definition abs64 :: "int \<Rightarrow> fault + int" where
  \<comment> \<open>\<^verbatim>\<open>std::abs\<close> on \<^verbatim>\<open>int64_t\<close>: undefined when the result is not representable\<close>
  "abs64 x = chk64 \<bar>x\<bar>"

section \<open>The ULP distance\<close>

definition convert :: "'a::len word \<Rightarrow> int" where
  \<comment> \<open>\<^verbatim>\<open>memcpy\<close> into the signed integer of the same width\<close>
  "convert x = sint x"

definition EPSILON_0 :: "'a::len word" where
  \<comment> \<open>\<^verbatim>\<open>std::numeric_limits<FP>::denorm_min()\<close>: the pattern 1\<close>
  "EPSILON_0 = 1"

definition INFINITE_DISTANCE :: int where
  \<comment> \<open>\<^verbatim>\<open>std::numeric_limits<int64_t>::max()\<close>\<close>
  "INFINITE_DISTANCE = 2 ^ 63 - 1"

text \<open>
  \<^verbatim>\<open>ulpDistance\<close>, branch by branch. \<open>0\<close> is the pattern of \<open>+0.0\<close>, to which the literal
  \<^verbatim>\<open>0\<close> of the source converts. In \<^verbatim>\<open>2 + abs(..) + abs(..)\<close> the left sum is formed first.
\<close>

function ulpDistance :: "'a::len word \<Rightarrow> 'a word \<Rightarrow> fault + int" where
  "ulpDistance a b =
    (if isnan a \<or> isnan b then Inr INFINITE_DISTANCE
     else if \<not> isfinite a \<or> \<not> isfinite b then Inr INFINITE_DISTANCE
     else if fgt a b then and_then (ulpDistance b a) neg64
     else if feq a b then Inr 0
     else if feq a 0 then
       and_then (and_then (ulpDistance (if flt b 0 then fneg EPSILON_0 else EPSILON_0) b) abs64)
         (add64 1)
     else if feq b 0 then
       and_then (and_then (ulpDistance (if flt a 0 then fneg EPSILON_0 else EPSILON_0) a) abs64)
         (add64 1)
     else if flt a 0 \<noteq> flt b 0 then
       lift2 add64
         (and_then (and_then (ulpDistance (if flt b 0 then fneg EPSILON_0 else EPSILON_0) b) abs64)
            (add64 2))
         (and_then (ulpDistance (if flt a 0 then fneg EPSILON_0 else EPSILON_0) a) abs64)
     else if flt a 0 then ulpDistance (fneg b) (fneg a)
     else if \<not> fge a 0 then Inl AssertionFailed
     else if \<not> flt a b then Inl AssertionFailed
     else sub64 (convert b) (convert a))"
  by pat_completeness auto

definition almostEqualUlps :: "'a::len word \<Rightarrow> 'a word \<Rightarrow> 64 word \<Rightarrow> fault + bool" where
  "almostEqualUlps lhs rhs maxUlpDiff =
    (if isnan lhs \<or> isnan rhs then Inr False
     else if \<not> isfinite lhs \<or> \<not> isfinite rhs then Inr (feq lhs rhs)
     else and_then (and_then (ulpDistance lhs rhs) abs64)
            (\<lambda>ulpDiff. Inr ((word_of_int ulpDiff :: 64 word) \<le> maxUlpDiff)))"

section \<open>The matchers\<close>

definition marginComparison :: "double \<Rightarrow> double \<Rightarrow> double \<Rightarrow> bool" where
  "marginComparison lhs rhs margin \<longleftrightarrow> fge (fadd lhs margin) rhs \<and> fge (fadd rhs margin) lhs"

datatype FloatingPointKind = Float | Double

text \<open>
  \<^verbatim>\<open>CATCH_ENFORCE\<close> throws \<^verbatim>\<open>std::domain_error\<close> when its condition is false; a constructor
  returns the error in place of the matcher. Each matcher class has its own \<^verbatim>\<open>m_target\<close>;
  the records share that field.
\<close>

datatype domain_error =
    Invalid_margin           \<comment> \<open>"Invalid margin: ... Margin has to be non-negative."\<close>
  | Ulp_impossibly_large     \<comment> \<open>"Provided ULP is impossibly large for a float comparison."\<close>
  | Epsilon_less_than_0      \<comment> \<open>"Relative comparison with epsilon <  0 does not make sense."\<close>
  | Epsilon_not_less_than_1  \<comment> \<open>"Relative comparison with epsilon >= 1 does not make sense."\<close>

record Matcher =
  m_target :: double

record WithinAbsMatcher = Matcher +
  m_margin :: double

record WithinUlpsMatcher = Matcher +
  m_ulps :: "64 word"
  m_type :: FloatingPointKind

record WithinRelMatcher = Matcher +
  m_epsilon :: double

definition one :: double where
  \<comment> \<open>the literal \<^verbatim>\<open>1.\<close>\<close>
  "one = 0x3FF0000000000000"

definition WithinAbsMatcher_new :: "double \<Rightarrow> double \<Rightarrow> domain_error + WithinAbsMatcher" where
  "WithinAbsMatcher_new target margin =
    (if \<not> fge margin 0 then Inl Invalid_margin
     else Inr \<lparr>m_target = target, m_margin = margin\<rparr>)"

definition WithinAbsMatcher_match :: "WithinAbsMatcher \<Rightarrow> double \<Rightarrow> bool" where
  "WithinAbsMatcher_match p matchee \<longleftrightarrow>
     fge (fadd matchee (m_margin p)) (m_target p) \<and> fge (fadd (m_target p) (m_margin p)) matchee"

definition WithinUlpsMatcher_new ::
  "double \<Rightarrow> 64 word \<Rightarrow> FloatingPointKind \<Rightarrow> domain_error + WithinUlpsMatcher" where
  "WithinUlpsMatcher_new target ulps baseType =
    (if \<not> (baseType = Double \<or> ulps \<le> 0xFFFFFFFF) then Inl Ulp_impossibly_large
     else Inr \<lparr>m_target = target, m_ulps = ulps, m_type = baseType\<rparr>)"

definition WithinUlpsMatcher_match :: "WithinUlpsMatcher \<Rightarrow> double \<Rightarrow> fault + bool" where
  "WithinUlpsMatcher_match p matchee =
    (case m_type p of
       Float \<Rightarrow> almostEqualUlps (to_float matchee) (to_float (m_target p)) (m_ulps p)
     | Double \<Rightarrow> almostEqualUlps matchee (m_target p) (m_ulps p))"

definition WithinRelMatcher_new :: "double \<Rightarrow> double \<Rightarrow> domain_error + WithinRelMatcher" where
  "WithinRelMatcher_new target epsilon =
    (if \<not> fge epsilon 0 then Inl Epsilon_less_than_0
     else if \<not> flt epsilon one then Inl Epsilon_not_less_than_1
     else Inr \<lparr>m_target = target, m_epsilon = epsilon\<rparr>)"

definition WithinRelMatcher_match :: "WithinRelMatcher \<Rightarrow> double \<Rightarrow> bool" where
  "WithinRelMatcher_match p matchee =
    (let relMargin = fmul (m_epsilon p) (fmax (fabs matchee) (fabs (m_target p)))
     in marginComparison matchee (m_target p) (if isinf relMargin then 0 else relMargin))"

section \<open>The description of the ULP matcher\<close>

text \<open>
  \<^verbatim>\<open>std::nextafter(x, y)\<close> is the value of the format next to \<open>x\<close> in the direction of \<open>y\<close>:
  \<open>y\<close> itself when the two compare equal, the smallest subnormal of the sign of the
  direction when \<open>x\<close> is a zero, and else the pattern one below or one above that of \<open>x\<close>
  (which takes the largest finite value to the infinity and back). A NaN operand comes
  back as a NaN of the same sign.
\<close>

definition pinf :: "'a::len word" where
  \<comment> \<open>\<^verbatim>\<open>INFINITY\<close>\<close>
  "pinf = pack False (infm TYPE('a))"

definition nextafter :: "'a::len word \<Rightarrow> 'a word \<Rightarrow> 'a word" where
  "nextafter x y =
    (if isnan x then pack (sign x) (mag (qnan :: 'a word))
     else if isnan y then pack (sign y) (mag (qnan :: 'a word))
     else if feq x y then y
     else if mag x = 0 then pack (flt y x) 1
     else if flt x y = sign x then pack (sign x) (mag x - 1)
     else pack (sign x) (mag x + 1))"

text \<open>
  The loop of \<^verbatim>\<open>step\<close> counts \<open>i\<close> from 0 up to \<open>steps\<close>, an \<^verbatim>\<open>uint64_t\<close>; \<open>i\<close> stays below
  \<open>steps\<close> and so never wraps.
\<close>

function step_loop :: "'a::len word \<Rightarrow> 'a word \<Rightarrow> nat \<Rightarrow> nat \<Rightarrow> 'a word" where
  "step_loop start direction steps i =
    (if i < steps then step_loop (nextafter start direction) direction steps (i + 1) else start)"
  by pat_completeness auto
termination
  by (relation "measure (\<lambda>(start, direction, steps, i). steps - i)") auto

definition step :: "'a::len word \<Rightarrow> 'a word \<Rightarrow> 64 word \<Rightarrow> 'a word" where
  "step start direction steps = step_loop start direction (unat steps) 0"

text \<open>
  \<^verbatim>\<open>write\<close> sends the number to the stream with \<^verbatim>\<open>std::scientific\<close> and the precision
  \<^verbatim>\<open>max_digits10 - 1\<close>: one digit, the point, \<open>p = max_digits10 - 1\<close> further digits, and the
  decimal exponent with its sign and at least two digits. The \<open>p + 1\<close> digits are those of
  the exact value, rounded to nearest, ties to even: the value is the fraction \<open>N / M\<close> of
  two naturals, \<open>dexp N M\<close> is its decimal exponent (the largest \<open>E\<close> with
  \<open>10 ^ E \<le> N / M\<close>, found by counting up or down from 0), and \<open>sci_digits p N M\<close> is the
  rounded quotient \<open>N / M / 10 ^ (E - p)\<close> with the exponent, moved up by one when the
  rounding carries into a further digit. An infinity is written \<^verbatim>\<open>inf\<close> and a NaN \<^verbatim>\<open>nan\<close>,
  after the sign.
\<close>

definition max_digits10 :: "'a::len itself \<Rightarrow> nat" where
  "max_digits10 _ = (if LENGTH('a) = 32 then 9 else 17)"

definition digit :: "nat \<Rightarrow> char" where
  "digit d = ''0123456789'' ! d"

fun show_nat :: "nat \<Rightarrow> string" where
  "show_nat n = (if n < 10 then [digit n] else show_nat (n div 10) @ [digit (n mod 10)])"

function dexp_up :: "nat \<Rightarrow> nat \<Rightarrow> nat \<Rightarrow> nat" where
  "dexp_up N M e = (if 0 < M \<and> 10 ^ (e + 1) * M \<le> N then dexp_up N M (e + 1) else e)"
  by pat_completeness auto
termination
proof (relation "measure (\<lambda>(N, M, e). N - 10 ^ e * M)", goal_cases)
  case 1 show ?case by simp
next
  case (2 N M e)
  define X where "X = 10 ^ e * M"
  have "0 < X" using 2 by (simp add: X_def)
  moreover have "10 * X \<le> N" using 2 by (simp add: X_def mult.assoc)
  ultimately have "N - 10 * X < N - X" by linarith
  then show ?case by (simp add: X_def mult.assoc)
qed

function dexp_down :: "nat \<Rightarrow> nat \<Rightarrow> nat \<Rightarrow> nat" where
  "dexp_down N M k = (if 0 < N \<and> N * 10 ^ k < M then dexp_down N M (k + 1) else k)"
  by pat_completeness auto
termination
proof (relation "measure (\<lambda>(N, M, k). M - N * 10 ^ k)", goal_cases)
  case 1 show ?case by simp
next
  case (2 N M k)
  define X where "X = N * 10 ^ k"
  have "0 < X" using 2 by (simp add: X_def)
  moreover have "X < M" using 2 by (simp add: X_def)
  ultimately have "M - 10 * X < M - X" by linarith
  then show ?case by (simp add: X_def mult.assoc mult.left_commute)
qed

definition dexp :: "nat \<Rightarrow> nat \<Rightarrow> int" where
  "dexp N M = (if M \<le> N then int (dexp_up N M 0) else - int (dexp_down N M 0))"

definition round_div :: "nat \<Rightarrow> nat \<Rightarrow> nat" where
  "round_div n d =
    (let q = n div d; r = n mod d in if d < 2 * r \<or> (2 * r = d \<and> odd q) then q + 1 else q)"

definition sci_digits :: "nat \<Rightarrow> nat \<Rightarrow> nat \<Rightarrow> nat \<times> int" where
  "sci_digits p N M =
    (let E = dexp N M;
         D = round_div (N * 10 ^ nat (int p - E)) (M * 10 ^ nat (E - int p))
     in if D = 10 ^ (p + 1) then (10 ^ p, E + 1) else (D, E))"

definition sci_text :: "nat \<Rightarrow> bool \<Rightarrow> nat \<Rightarrow> int \<Rightarrow> string" where
  "sci_text p s D E =
    (let ds = replicate (p + 1 - length (show_nat D)) CHR ''0'' @ show_nat D
     in (if s then ''-'' else '''') @ take 1 ds @ ''.'' @ drop 1 ds @ ''e''
        @ (if E < 0 then ''-'' else ''+'') @ (if \<bar>E\<bar> < 10 then ''0'' else '''')
        @ show_nat (nat \<bar>E\<bar>))"

definition decimal_of :: "'a::len word \<Rightarrow> nat \<times> int" where
  "decimal_of num =
    (let p = max_digits10 TYPE('a) - 1;
         s = bias TYPE('a) + fbits TYPE('a) - 1
     in if mant num = 0 then (0, 0)
        else sci_digits p (mant num * 2 ^ (uexp num - s)) (2 ^ (s - uexp num)))"

definition write_num :: "'a::len word \<Rightarrow> string" where
  "write_num num =
    (if isnan num then (if sign num then ''-nan'' else ''nan'')
     else if isinf num then (if sign num then ''-inf'' else ''inf'')
     else sci_text (max_digits10 TYPE('a) - 1) (sign num)
            (fst (decimal_of num)) (snd (decimal_of num)))"

text \<open>
  \<^verbatim>\<open>WithinUlpsMatcher::describe\<close>. The count of ULPs is an \<^verbatim>\<open>uint64_t\<close>, written in decimal.
  For the width \<^verbatim>\<open>Float\<close> the target is narrowed, and an \<^verbatim>\<open>f\<close> follows it.
\<close>

definition WithinUlpsMatcher_describe :: "WithinUlpsMatcher \<Rightarrow> string" where
  "WithinUlpsMatcher_describe p =
    ''is within '' @ show_nat (unat (m_ulps p)) @ '' ULPs of ''
    @ (if m_type p = Float then write_num (to_float (m_target p)) @ ''f'' else write_num (m_target p))
    @ '' ([''
    @ (if m_type p = Double then
         write_num (step (m_target p) (fneg pinf) (m_ulps p)) @ '', ''
         @ write_num (step (m_target p) pinf (m_ulps p))
       else
         write_num (step (to_float (m_target p)) (fneg pinf) (m_ulps p)) @ '', ''
         @ write_num (step (to_float (m_target p)) pinf (m_ulps p)))
    @ ''])''"

section \<open>The wording of the specification, and the values of its scenarios\<close>

text \<open>
  The specification of the ULP matcher, word for word: false when either value is a NaN;
  else, when either is not finite, true exactly for identical values; else true exactly
  when the magnitude of the ULP distance is at most \<open>ulps\<close>. It is compared below with
  \<open>almostEqualUlps\<close>.
\<close>

definition ulp_match_spec :: "'a::len word \<Rightarrow> 'a word \<Rightarrow> 64 word \<Rightarrow> fault + bool" where
  "ulp_match_spec candidate target ulps =
    (if isnan candidate \<or> isnan target then Inr False
     else if \<not> isfinite candidate \<or> \<not> isfinite target then Inr (candidate = target)
     else and_then (ulpDistance candidate target) (\<lambda>d. Inr (\<bar>d\<bar> \<le> uint ulps)))"

text \<open>
  The \<^verbatim>\<open>double\<close>s of the scenarios, by their patterns. \<open>nearest_double p q x\<close> says that the
  positive normal \<open>x\<close> is the \<^verbatim>\<open>double\<close> nearest to \<open>p / q\<close>, so that \<open>x\<close> is what the decimal
  literal denotes (lemma \<open>literals\<close>).
\<close>

abbreviation d_inf :: double where "d_inf \<equiv> 0x7FF0000000000000"
abbreviation d_nan :: double where "d_nan \<equiv> 0x7FF8000000000000"
abbreviation d_0_05 :: double where "d_0_05 \<equiv> 0x3FA999999999999A"
abbreviation d_0_1 :: double where "d_0_1 \<equiv> 0x3FB999999999999A"
abbreviation d_10 :: double where "d_10 \<equiv> 0x4024000000000000"
abbreviation d_10_04 :: double where "d_10_04 \<equiv> 0x4024147AE147AE14"
abbreviation d_10_06 :: double where "d_10_06 \<equiv> 0x40241EB851EB851F"
abbreviation d_100 :: double where "d_100 \<equiv> 0x4059000000000000"
abbreviation d_105 :: double where "d_105 \<equiv> 0x405A400000000000"
abbreviation d_115 :: double where "d_115 \<equiv> 0x405CC00000000000"
abbreviation d_2p128 :: double where "d_2p128 \<equiv> 0x47F0000000000000"

definition nearest_double :: "nat \<Rightarrow> nat \<Rightarrow> double \<Rightarrow> bool" where
  "nearest_double p q x \<longleftrightarrow>
     (let j = 1075 - expo x; err = \<bar>int p * 2 ^ j - int (mant x) * int q\<bar>
      in \<not> sign x \<and> 0 < expo x \<and> expo x \<le> 1075 \<and> 2 * err < int q
         \<and> (err = 0 \<or> 0 < fraction x))"

text \<open>
  The specification of the description, word for word: the text
  \<^verbatim>\<open>is within <ulps> ULPs of <target> ([<lower>, <upper>])\<close>, where the bounds are \<open>ulps\<close>
  steps from the target towards \<open>-\<infinity>\<close> and \<open>+\<infinity>\<close> and the numbers are written in the
  scientific notation of the width. It is compared below with \<open>WithinUlpsMatcher_describe\<close>.
\<close>

definition describe_spec :: "WithinUlpsMatcher \<Rightarrow> string" where
  "describe_spec p =
    ''is within '' @ show_nat (unat (m_ulps p)) @ '' ULPs of ''
    @ (case m_type p of
         Double \<Rightarrow> write_num (m_target p) @ '' ([''
           @ write_num (step (m_target p) (fneg pinf) (m_ulps p)) @ '', ''
           @ write_num (step (m_target p) pinf (m_ulps p))
       | Float \<Rightarrow> write_num (to_float (m_target p)) @ '' ([''
           @ write_num (step (to_float (m_target p)) (fneg pinf) (m_ulps p)) @ '', ''
           @ write_num (step (to_float (m_target p)) pinf (m_ulps p)))
    @ ''])''"

section \<open>Auxiliary notions for the proofs\<close>

text \<open>
  None of these belongs to the program. \<open>key\<close> is the pattern read as a sign and a
  magnitude; it orders the patterns as \<open>units\<close> does (\<open>units_less_iff\<close> below), and the ULP
  distance of two finite values is the difference of their keys. \<open>rank\<close> is the measure
  that decreases along the recursion of \<open>ulpDistance\<close>.
\<close>

definition wf_format :: "'a::len itself \<Rightarrow> bool" where
  "wf_format _ \<longleftrightarrow> fbits TYPE('a) + 2 \<le> LENGTH('a)"

definition key :: "'a::len word \<Rightarrow> int" where
  "key x = (if sign x then - int (mag x) else int (mag x))"

definition umag_of :: "nat \<Rightarrow> nat \<Rightarrow> nat" where
  "umag_of fb m = (if m div 2 ^ fb = 0 then m mod 2 ^ fb
                   else (2 ^ fb + m mod 2 ^ fb) * 2 ^ (m div 2 ^ fb - 1))"

definition rank_le :: "'a::len word \<Rightarrow> 'a word \<Rightarrow> nat" where
  "rank_le a b =
    (if feq a b then 0 else if feq a 0 then 1 else if feq b 0 then 3
     else if flt a 0 \<noteq> flt b 0 then 3 else if flt a 0 then 1 else 0)"

definition rank :: "'a::len word \<Rightarrow> 'a word \<Rightarrow> nat" where
  "rank a b =
    (if isnan a \<or> isnan b \<or> \<not> isfinite a \<or> \<not> isfinite b then 0
     else if fgt a b then rank_le b a + 1 else rank_le a b)"

definition exact_dist :: "int \<Rightarrow> fault + int" where
  "exact_dist k = (if \<bar>k\<bar> < 2 ^ 63 then Inr k else Inl SignedOverflow)"

text \<open>
  \<open>valof x\<close> is the real number that the pattern \<open>x\<close> stands for (a unit is
  \<open>2 ^ (1 - bias - fbits)\<close>); as in \<open>units\<close>, an infinity is counted as the value one binade
  above the largest finite one. \<open>read_sci\<close> reads a text in scientific notation: an optional
  minus, the digits with a decimal point among them, \<^verbatim>\<open>e\<close>, and the signed decimal exponent;
  it gives the real number that the text denotes. \<open>text_value x\<close> is the number that the
  digits and the exponent of \<open>decimal_of x\<close> denote.
\<close>

definition valof :: "'a::len word \<Rightarrow> real" where
  "valof x = real_of_int (units x) / 2 ^ (bias TYPE('a) + fbits TYPE('a) - 1)"

definition text_value :: "'a::len word \<Rightarrow> real" where
  "text_value x =
    (if sign x then - 1 else 1) * real (fst (decimal_of x))
      * 10 powi (snd (decimal_of x) - int (max_digits10 TYPE('a) - 1))"

definition digit_val :: "char \<Rightarrow> nat" where
  "digit_val c = of_char c - 48"

definition read_nat :: "string \<Rightarrow> nat" where
  "read_nat s = foldl (\<lambda>n c. 10 * n + digit_val c) 0 s"

definition read_int :: "string \<Rightarrow> int" where
  "read_int s =
    (if take 1 s = ''-'' then - int (read_nat (drop 1 s))
     else if take 1 s = ''+'' then int (read_nat (drop 1 s))
     else int (read_nat s))"

definition read_sci :: "string \<Rightarrow> real" where
  "read_sci t =
    (let neg = (take 1 t = ''-'');
         body = (if neg then drop 1 t else t);
         m = takeWhile (\<lambda>c. c \<noteq> CHR ''e'') body;
         ex = drop 1 (dropWhile (\<lambda>c. c \<noteq> CHR ''e'') body);
         ip = takeWhile (\<lambda>c. c \<noteq> CHR ''.'') m;
         fp = drop 1 (dropWhile (\<lambda>c. c \<noteq> CHR ''.'') m)
     in (if neg then - 1 else 1) * real (read_nat (ip @ fp))
        * 10 powi (read_int ex - int (length fp)))"

definition is_digit :: "char \<Rightarrow> bool" where
  "is_digit c \<longleftrightarrow> c \<noteq> CHR ''e'' \<and> c \<noteq> CHR ''.'' \<and> c \<noteq> CHR ''-'' \<and> c \<noteq> CHR ''+''"

section \<open>Sign and magnitude of a pattern\<close>

lemma two_pow_len: "(2::nat) ^ LENGTH('a::len) = 2 * 2 ^ (LENGTH('a) - 1)"
  by (metis len_gt_0 power_eq_if less_numeral_extra(3))

lemma mag_less: "mag (x::'a::len word) < 2 ^ (LENGTH('a) - 1)"
  by (simp add: mag_def)

lemma unat_sign_mag:
  "unat x = (if sign x then 2 ^ (LENGTH('a) - 1) else 0) + mag x" for x :: "'a::len word"
proof -
  have "unat x < 2 ^ LENGTH('a)" by simp
  then have "unat x < 2 * 2 ^ (LENGTH('a) - 1)"
    by (simp only: two_pow_len)
  then show ?thesis
    by (auto simp: sign_def mag_def mod_if not_le)
qed

lemma unat_pack:
  assumes "m < 2 ^ (LENGTH('a) - 1)"
  shows "unat (pack s m :: 'a::len word) = (if s then 2 ^ (LENGTH('a) - 1) else 0) + m"
proof -
  have "(if s then 2 ^ (LENGTH('a) - 1) else 0) + m < 2 ^ LENGTH('a)"
    using assms by (simp add: two_pow_len)
  then show ?thesis
    unfolding pack_def unat_of_nat by (rule mod_less)
qed

lemma sign_pack: "m < 2 ^ (LENGTH('a) - 1) \<Longrightarrow> sign (pack s m :: 'a::len word) = s"
  by (simp add: sign_def unat_pack)

lemma mag_pack: "m < 2 ^ (LENGTH('a) - 1) \<Longrightarrow> mag (pack s m :: 'a::len word) = m"
  by (simp add: mag_def unat_pack)

lemma pack_sign_mag: "pack (sign x) (mag x) = x"
  unfolding pack_def unat_sign_mag [symmetric] by simp

lemma word_eq_sign_mag: "x = y \<longleftrightarrow> sign x = sign y \<and> mag x = mag y"
proof
  assume "sign x = sign y \<and> mag x = mag y"
  then have "pack (sign x) (mag x) = (pack (sign y) (mag y) :: 'a word)" by simp
  then show "x = y" by (simp only: pack_sign_mag)
qed simp

lemma sint_sign_mag:
  "sint x = int (mag x) - (if sign x then 2 ^ (LENGTH('a) - 1) else 0)" for x :: "'a::len word"
proof -
  define k where "k = LENGTH('a) - 1"
  have len: "LENGTH('a) = Suc k" by (simp add: k_def)
  define P :: int where "P = 2 ^ k"
  define m :: int where "m = int (mag x)"
  have "mag x < 2 ^ k" unfolding k_def by (rule mag_less)
  then have "int (mag x) < int (2 ^ k)" by (simp only: of_nat_less_iff)
  then have m: "0 \<le> m" "m < P" by (simp_all add: m_def P_def)
  have "int (unat x) = int ((if sign x then 2 ^ k else 0) + mag x)"
    using unat_sign_mag [of x] by (simp only: k_def)
  then have u: "uint x = (if sign x then P else 0) + m"
    by (simp add: P_def m_def)
  have s: "sint x = (uint x + P) mod (2 * P) - P"
    using int_word_sint [of "uint x", where 'a = 'a] by (simp add: len P_def)
  have "sint x = m - (if sign x then P else 0)"
  proof (cases "sign x")
    case True
    have "(P + m + P) mod (2 * P) = (m + 2 * P) mod (2 * P)" by (simp add: algebra_simps)
    also have "\<dots> = m mod (2 * P)" by simp
    also have "\<dots> = m" using m by simp
    finally show ?thesis using True by (simp add: s u)
  next
    case False
    have "(m + P) mod (2 * P) = m + P" using m by simp
    then show ?thesis using False by (simp add: s u)
  qed
  then show ?thesis by (simp add: m_def P_def k_def)
qed

lemma mag_0: "mag (0::'a::len word) = 0" by (simp add: mag_def)
lemma sign_0: "\<not> sign (0::'a::len word)" by (simp add: sign_def)
lemma pow_gt1: "2 \<le> LENGTH('a::len) \<Longrightarrow> (1::nat) < 2 ^ (LENGTH('a) - 1)"
  using one_less_power [of "2::nat" "LENGTH('a) - 1"] by simp
lemma mag_1: "2 \<le> LENGTH('a) \<Longrightarrow> mag (1::'a::len word) = 1" 
  using pow_gt1[where 'a='a] by (simp add: mag_def)
lemma sign_1: "2 \<le> LENGTH('a) \<Longrightarrow> \<not> sign (1::'a::len word)" 
  using pow_gt1[where 'a='a] by (simp add: sign_def)

section \<open>The order of the values is the order of the keys\<close>

lemma umag_umag_of: "umag x = umag_of (fbits TYPE('a)) (mag x)" for x :: "'a::len word"
  by (simp add: umag_def umag_of_def expo_def fraction_def)

lemma umag_of_Suc: "umag_of fb n < umag_of fb (Suc n)"
proof -
  define e where "e = n div 2 ^ fb"
  define f where "f = n mod 2 ^ fb"
  have f: "f < 2 ^ fb" by (simp add: f_def)
  show ?thesis
  proof (cases "Suc f = 2 ^ fb")
    case True
    then have s: "Suc n mod 2 ^ fb = 0" "Suc n div 2 ^ fb = Suc e"
      by (simp_all add: mod_Suc div_Suc e_def f_def)
    have "umag_of fb n < 2 ^ fb * 2 ^ e"
    proof (cases "e = 0")
      case True
      then show ?thesis using f by (simp add: umag_of_def e_def [symmetric] f_def [symmetric])
    next
      case False
      then obtain e' where e': "e = Suc e'" by (cases e) simp_all
      have "(2 ^ fb + f) * 2 ^ e' < (2 ^ fb + 2 ^ fb) * 2 ^ e'"
        using f by simp
      then show ?thesis
        by (simp add: umag_of_def e_def [symmetric] f_def [symmetric] e' algebra_simps)
    qed
    then show ?thesis by (simp add: umag_of_def s)
  next
    case False
    then have s: "Suc n mod 2 ^ fb = Suc f" "Suc n div 2 ^ fb = e"
      by (simp_all add: mod_Suc div_Suc e_def f_def)
    show ?thesis
      by (simp add: umag_of_def s e_def [symmetric] f_def [symmetric])
  qed
qed

lemma umag_of_less_iff: "umag_of fb m < umag_of fb n \<longleftrightarrow> m < n"
  by (rule lift_Suc_mono_less_iff) (rule umag_of_Suc)

lemma umag_of_eq_iff: "umag_of fb m = umag_of fb n \<longleftrightarrow> m = n"
  using umag_of_less_iff [of fb m n] umag_of_less_iff [of fb n m]
  by (metis less_irrefl linorder_neqE_nat)

lemma umag_of_0: "umag_of fb 0 = 0"
  by (simp add: umag_of_def)

lemma umag_of_eq_0: "umag_of fb m = 0 \<longleftrightarrow> m = 0"
  using umag_of_eq_iff [of fb m 0] by (simp add: umag_of_0)

lemma umag_of_pos: "0 < umag_of fb m \<longleftrightarrow> 0 < m"
  using umag_of_less_iff [of fb 0 m] by (simp only: umag_of_0)

lemma neg_int_less_int: "- int x < int y \<longleftrightarrow> 0 < x \<or> 0 < y"
  by linarith

lemma int_less_neg_int: "\<not> int x < - int y"
  by linarith

lemma neg_int_eq_int: "- int x = int y \<longleftrightarrow> x = 0 \<and> y = 0"
  by linarith

lemma int_eq_neg_int: "int x = - int y \<longleftrightarrow> x = 0 \<and> y = 0"
  by linarith

lemmas sign_int_simps = neg_int_less_int int_less_neg_int neg_int_eq_int int_eq_neg_int

lemma units_less_iff: "units a < units b \<longleftrightarrow> key a < key b" for a b :: "'a::len word"
  by (simp add: units_def key_def umag_umag_of umag_of_less_iff umag_of_pos sign_int_simps)

lemma units_eq_iff: "units a = units b \<longleftrightarrow> key a = key b" for a b :: "'a::len word"
  by (simp add: units_def key_def umag_umag_of umag_of_eq_iff umag_of_eq_0 sign_int_simps)

lemma units_le_iff: "units a \<le> units b \<longleftrightarrow> key a \<le> key b" for a b :: "'a::len word"
  using units_less_iff [of b a] by (simp add: not_less [symmetric])

section \<open>Classification by magnitude\<close>

lemma mag_less_emax:
  fixes x :: "'a::len word"
  assumes "wf_format TYPE('a)"
  shows "mag x < (emax TYPE('a) + 1) * 2 ^ fbits TYPE('a)"
proof -
  have "fbits TYPE('a) \<le> LENGTH('a) - 1"
    using assms by (simp add: wf_format_def)
  then have "(2::nat) ^ (LENGTH('a) - 1) = 2 ^ (LENGTH('a) - 1 - fbits TYPE('a)) * 2 ^ fbits TYPE('a)"
    by (simp add: power_add [symmetric])
  then show ?thesis
    using mag_less [of x] by (simp add: emax_def)
qed

lemma expo_le_emax: "wf_format TYPE('a) \<Longrightarrow> expo x \<le> emax TYPE('a)" for x :: "'a::len word"
  using mag_less_emax [of x] by (simp add: expo_def div_less_iff_less_mult flip: less_Suc_eq_le)

lemma mag_expo_fraction: "mag x = expo x * 2 ^ fbits TYPE('a) + fraction x" for x :: "'a::len word"
  unfolding expo_def fraction_def by (rule div_mult_mod_eq [symmetric])

lemma fraction_less: "fraction x < 2 ^ fbits TYPE('a)" for x :: "'a::len word"
  by (simp add: fraction_def)

lemma isfinite_iff: "isfinite x \<longleftrightarrow> mag x < infm TYPE('a)" for x :: "'a::len word"
  by (simp add: isfinite_def infm_def expo_def div_less_iff_less_mult)

lemma isinf_iff:
  "wf_format TYPE('a) \<Longrightarrow> isinf x \<longleftrightarrow> mag x = infm TYPE('a)" for x :: "'a::len word"
proof
  assume "isinf x"
  then show "mag x = infm TYPE('a)"
    by (simp add: isinf_def infm_def mag_expo_fraction)
next
  assume "mag x = infm TYPE('a)"
  then show "isinf x"
    by (simp add: isinf_def infm_def expo_def fraction_def)
qed

lemma isnan_iff:
  fixes x :: "'a::len word"
  assumes "wf_format TYPE('a)"
  shows "isnan x \<longleftrightarrow> infm TYPE('a) < mag x"
proof -
  have "isnan x \<longleftrightarrow> \<not> isfinite x \<and> \<not> isinf x"
    using expo_le_emax [OF assms, of x] by (auto simp: isnan_def isfinite_def isinf_def)
  then show ?thesis
    by (auto simp: isfinite_iff isinf_iff [OF assms])
qed

lemma wf_format_len: "wf_format TYPE('a::len) \<Longrightarrow> 2 \<le> LENGTH('a)"
  by (simp add: wf_format_def)

lemma infm_gt_1: 
  assumes "wf_format TYPE('a::len)" shows "1 < infm TYPE('a)"
proof -
  have "0 < LENGTH('a) - 1 - fbits TYPE('a)"
    using assms by (simp add: wf_format_def)
  then have "(1::nat) < 2 ^ (LENGTH('a) - 1 - fbits TYPE('a))"
    using one_less_power [of "2::nat"] by simp
  then have "1 \<le> emax TYPE('a)" by (simp add: emax_def)
  moreover have "0 < fbits TYPE('a)" by (simp add: fbits_def)
  then have "(1::nat) < 2 ^ fbits TYPE('a)"
    using one_less_power [of "2::nat"] by simp
  ultimately have "1 * 1 < emax TYPE('a) * 2 ^ fbits TYPE('a)"
    by (intro mult_le_less_imp_less) simp_all
  then show ?thesis by (simp add: infm_def)
qed

lemma sign_fneg: "sign (fneg x) = (\<not> sign x)"
  by (simp only: fneg_def sign_pack [OF mag_less])

lemma mag_fneg: "mag (fneg x) = mag x"
  by (simp only: fneg_def mag_pack [OF mag_less])

lemma sign_fabs: "\<not> sign (fabs x)"
  by (simp only: fabs_def sign_pack [OF mag_less] not_False_eq_True)

lemma mag_fabs: "mag (fabs x) = mag x"
  by (simp only: fabs_def mag_pack [OF mag_less])

lemma wf_format_32: "wf_format TYPE(32)"
  by (simp add: wf_format_def fbits_def)

lemma wf_format_64: "wf_format TYPE(64)"
  by (simp add: wf_format_def fbits_def)

section \<open>Termination of the ULP distance\<close>

lemma isfinite_wf: "isfinite x \<Longrightarrow> wf_format TYPE('a)" for x :: "'a::len word"
proof (rule ccontr)
  assume fin: "isfinite x" and "\<not> wf_format TYPE('a)"
  then have "LENGTH('a) - 1 - fbits TYPE('a) = 0"
    by (simp add: wf_format_def)
  then have "emax TYPE('a) = 0" by (simp add: emax_def)
  then show False using fin by (simp add: isfinite_def)
qed

lemma finite_not_nan: "isfinite x \<Longrightarrow> \<not> isnan x"
  by (simp add: isfinite_def isnan_def)

lemma flt_iff: "flt a b \<longleftrightarrow> \<not> isnan a \<and> \<not> isnan b \<and> key a < key b"
  by (simp add: flt_def units_less_iff)

lemma feq_iff: "feq a b \<longleftrightarrow> \<not> isnan a \<and> \<not> isnan b \<and> key a = key b"
  by (simp add: feq_def units_eq_iff)

lemma fge_iff: "fge a b \<longleftrightarrow> \<not> isnan a \<and> \<not> isnan b \<and> key b \<le> key a"
  by (simp add: fge_def units_le_iff)

lemma key_fneg: "key (fneg x) = - key x"
  by (simp add: key_def sign_fneg mag_fneg)

lemma key_0: "key (0::'a::len word) = 0"
  by (simp add: key_def mag_0)

lemma isfinite_fneg: "isfinite (fneg x) = isfinite x"
  by (simp add: isfinite_iff mag_fneg)

lemma isfinite_0: "wf_format TYPE('a) \<Longrightarrow> isfinite (0::'a::len word)"
  using infm_gt_1 [where 'a = 'a] by (simp add: isfinite_iff mag_0)

lemma isfinite_EPSILON_0: "wf_format TYPE('a) \<Longrightarrow> isfinite (EPSILON_0::'a::len word)"
  using infm_gt_1 [where 'a = 'a] by (simp add: isfinite_iff EPSILON_0_def mag_1 wf_format_len)

lemma key_EPSILON_0: "wf_format TYPE('a) \<Longrightarrow> key (EPSILON_0::'a::len word) = 1"
  by (simp add: key_def EPSILON_0_def mag_1 sign_1 wf_format_len)

lemmas cmp_simps = flt_iff feq_iff fge_iff fgt_def key_fneg key_0 key_EPSILON_0
  isfinite_fneg isfinite_0 isfinite_EPSILON_0 finite_not_nan

termination ulpDistance
proof (relation "measure (\<lambda>(a, b). rank a b)", goal_cases)
  case 1
  show ?case by simp
next
  case (2 a b)
  then have "wf_format TYPE('a)" by (auto dest: isfinite_wf)
  with 2 show ?case by (auto simp: rank_def rank_le_def cmp_simps)
next
  case (3 a b)
  then have "wf_format TYPE('a)" by (auto dest: isfinite_wf)
  with 3 show ?case by (auto simp: rank_def rank_le_def cmp_simps)
next
  case (4 a b)
  then have "wf_format TYPE('a)" by (auto dest: isfinite_wf)
  with 4 show ?case by (auto simp: rank_def rank_le_def cmp_simps)
next
  case (5 a b)
  then have "wf_format TYPE('a)" by (auto dest: isfinite_wf)
  with 5 show ?case by (auto simp: rank_def rank_le_def cmp_simps)
next
  case (6 a b)
  then have "wf_format TYPE('a)" by (auto dest: isfinite_wf)
  with 6 show ?case by (auto simp: rank_def rank_le_def cmp_simps)
next
  case (7 a b)
  then have "wf_format TYPE('a)" by (auto dest: isfinite_wf)
  with 7 show ?case by (auto simp: rank_def rank_le_def cmp_simps)
qed


declare ulpDistance.simps [simp del]

section \<open>The ULP distance is the difference of the keys\<close>

lemma key_bound:
  fixes x :: "'a::len word"
  assumes "LENGTH('a) \<le> 64"
  shows "\<bar>key x\<bar> < 2 ^ 63"
proof -
  have "(2::nat) ^ (LENGTH('a) - 1) \<le> 2 ^ 63"
    using assms by (intro power_increasing) simp_all
  then have "mag x < 2 ^ 63"
    using mag_less [of x] by simp
  then show ?thesis by (simp add: key_def)
qed

lemma key_pos_iff: "0 < key x \<longleftrightarrow> \<not> sign x \<and> 0 < mag x"
  by (simp add: key_def)

lemma key_neg_iff: "key x < 0 \<longleftrightarrow> sign x \<and> 0 < mag x"
  by (simp add: key_def)

lemma convert_pos: "0 < key x \<Longrightarrow> convert x = key x"
  by (simp add: convert_def sint_sign_mag key_def split: if_splits)

lemma ulpDistance_exact:
  fixes a b :: "'a::len word"
  assumes "LENGTH('a) \<le> 64"
  shows "isfinite a \<Longrightarrow> isfinite b \<Longrightarrow> ulpDistance a b = exact_dist (key b - key a)"
proof (induction a b rule: ulpDistance.induct)
  case (1 a b)
  have wf: "wf_format TYPE('a)" using "1.prems" by (auto dest: isfinite_wf)
  note fin = "1.prems" finite_not_nan [OF "1.prems"(1)] finite_not_nan [OF "1.prems"(2)]
  note kb = key_bound [OF assms, of a] key_bound [OF assms, of b]
  note eval = and_then_def lift2_def exact_dist_def chk64_def int64_range_def
    add64_def sub64_def neg64_def abs64_def
  note rw = cmp_simps [simplified wf, simplified]
  consider (gt) "key b < key a" | (eq) "key a = key b"
    | (az) "key a = 0" "0 < key b" | (bz) "key a < 0" "key b = 0"
    | (cross) "key a < 0" "0 < key b" | (neg) "key a < key b" "key b < 0"
    | (pos) "0 < key a" "key a < key b"
    by linarith
  then show ?case
  proof cases
    case gt
    have "ulpDistance b a = exact_dist (key a - key b)"
      using "1.IH"(1) fin gt by (simp add: cmp_simps)
    then show ?thesis
      using fin gt kb by (subst ulpDistance.simps) (simp add: cmp_simps eval)
  next
    case eq
    then show ?thesis
      using fin by (subst ulpDistance.simps) (simp add: cmp_simps eval)
  next
    case az
    have "ulpDistance EPSILON_0 b = exact_dist (key b - key (EPSILON_0 :: 'a word))"
      using "1.IH"(2) fin az wf by (simp add: cmp_simps)
    then show ?thesis
      using fin az kb wf by (subst ulpDistance.simps) (simp add: cmp_simps eval)
  next
    case bz
    have "ulpDistance (fneg EPSILON_0) a = exact_dist (key a - key (fneg EPSILON_0 :: 'a word))"
      using "1.IH"(3) fin bz wf by (simp add: cmp_simps)
    then show ?thesis
      using fin bz kb wf by (subst ulpDistance.simps) (simp add: cmp_simps eval)
  next
    case cross
    have "ulpDistance EPSILON_0 b = exact_dist (key b - key (EPSILON_0 :: 'a word))"
      using "1.IH"(4) fin cross wf by (simp add: cmp_simps)
    moreover have "ulpDistance (fneg EPSILON_0) a = exact_dist (key a - key (fneg EPSILON_0 :: 'a word))"
      using "1.IH"(5) fin cross wf by (simp add: cmp_simps)
    ultimately show ?thesis
      using fin cross kb wf by (subst ulpDistance.simps) (simp add: cmp_simps eval)
  next
    case neg
    have "ulpDistance (fneg b) (fneg a) = exact_dist (key (fneg a) - key (fneg b))"
      using "1.IH"(6) fin neg wf by (simp add: cmp_simps)
    then show ?thesis
      using fin neg kb wf by (subst ulpDistance.simps) (simp add: cmp_simps eval)
  next
    case pos
    then have "convert a = key a" "convert b = key b"
      by (simp_all add: convert_pos)
    then show ?thesis
      using fin pos kb wf by (subst ulpDistance.simps) (simp add: cmp_simps eval)
  qed
qed

section \<open>Facts about the arithmetic\<close>

lemma bitlen_0: "bitlen 0 = 0" by simp

lemma bitlen_pos: "0 < n \<Longrightarrow> bitlen n = 1 + bitlen (n div 2)" by simp

declare bitlen.simps [simp del]

lemma bitlen_le: "n < 2 ^ k \<Longrightarrow> bitlen n \<le> k"
proof (induction k arbitrary: n)
  case 0
  then show ?case by (simp add: bitlen_0)
next
  case (Suc k)
  show ?case
  proof (cases "n = 0")
    case True then show ?thesis by (simp add: bitlen_0)
  next
    case False
    have "n div 2 < 2 ^ k" using Suc.prems by auto
    then have "bitlen (n div 2) \<le> k" by (rule Suc.IH)
    then show ?thesis using False by (simp add: bitlen_pos)
  qed
qed

lemma bitlen_gt: "2 ^ k \<le> n \<Longrightarrow> k < bitlen n"
proof (induction k arbitrary: n)
  case 0
  then show ?case by (simp add: bitlen_pos)
next
  case (Suc k)
  have "2 ^ k \<le> n div 2" using Suc.prems by auto
  then have "k < bitlen (n div 2)" by (rule Suc.IH)
  moreover have "0 < n" using Suc.prems by (metis less_le_trans zero_less_numeral zero_less_power)
  ultimately show ?case by (simp add: bitlen_pos)
qed

lemma bitlen_eq: "2 ^ k \<le> n \<Longrightarrow> n < 2 ^ Suc k \<Longrightarrow> bitlen n = Suc k"
  using bitlen_le [of n "Suc k"] bitlen_gt [of k n] by simp

lemma round_mag_exact_sub: 
  assumes "f < 2 ^ fb"
  shows "round_mag fb f 0 = f"
proof (cases "f = 0")
  case True then show ?thesis by (simp add: round_mag_def)
next
  case False
  have "bitlen f \<le> fb" using assms by (rule bitlen_le)
  then have "max (- 0) (int (bitlen f) - int (fb + 1)) = 0" by simp
  then show ?thesis using False by (simp add: round_mag_def Let_def)
qed

lemma round_mag_exact_norm:
  assumes "f < 2 ^ fb"
  shows "round_mag fb ((2 ^ fb + f) * 2 ^ k) 0 = k * 2 ^ fb + (2 ^ fb + f)"
proof -
  let ?m = "(2 ^ fb + f) * 2 ^ k"
  have lo: "2 ^ (fb + k) \<le> ?m" by (simp add: power_add)
  have "(2 ^ fb + f) * 2 ^ k < (2 ^ fb + 2 ^ fb) * 2 ^ k" using assms by simp
  then have hi: "?m < 2 ^ Suc (fb + k)" by (simp add: power_add)
  have bl: "bitlen ?m = Suc (fb + k)" using lo hi by (rule bitlen_eq)
  have t: "max (- 0) (int (bitlen ?m) - int (fb + 1)) = int k" by (simp add: bl)
  have nz: "?m \<noteq> 0" by simp
  show ?thesis
    unfolding round_mag_def Let_def t using nz by simp
qed

lemma round_mag_exact:
  fixes x :: "'a::len word"
  shows "round_mag (fbits TYPE('a)) (mant x * 2 ^ uexp x) 0 = mag x"
proof (cases "expo x = 0")
  case True
  then show ?thesis
    using round_mag_exact_sub [OF fraction_less [of x]] mag_expo_fraction [of x]
    by (simp add: mant_def uexp_def)
next
  case False
  then obtain k where k: "expo x = Suc k" by (cases "expo x") simp_all
  have "mag x = k * 2 ^ fbits TYPE('a) + (2 ^ fbits TYPE('a) + fraction x)"
    using mag_expo_fraction [of x] by (simp add: k)
  then show ?thesis
    using round_mag_exact_norm [OF fraction_less [of x], of k]
    by (simp add: mant_def uexp_def k)
qed


lemma expo_0: "expo (0::'a::len word) = 0"
  by (simp add: expo_def mag_0)

lemma fraction_0: "fraction (0::'a::len word) = 0"
  by (simp add: fraction_def mag_0)

lemma zero_facts:
  "mant (0::'a::len word) = 0" "uexp (0::'a::len word) = 0" "smant (0::'a::len word) = 0"
  by (simp_all add: mant_def uexp_def smant_def expo_0 fraction_0)

lemma not_isnan_0: "\<not> isnan (0::'a::len word)"
  by (simp add: isnan_def fraction_0)

lemma isinf_0: "isinf (0::'a::len word) \<longleftrightarrow> emax TYPE('a) = 0"
  by (auto simp: isinf_def expo_0 fraction_0)

lemma emax_64: "emax TYPE(64) = 2047"
  by (simp add: emax_def fbits_def)

lemma infm_64: "infm TYPE(64) = 0x7FF0000000000000"
  by (simp add: infm_def emax_64) (simp add: fbits_def)

lemma isnan_qnan_64: "isnan (qnan :: double)"
proof -
  have "mag (qnan :: double) = 0x7FF8000000000000"
    unfolding qnan_def by (subst mag_pack) (simp_all add: infm_64 fbits_def)
  then show ?thesis
    by (simp add: isnan_iff [OF wf_format_64] infm_64)
qed

lemma isnan_fadd: "isnan a \<or> isnan b \<Longrightarrow> isnan (fadd a b :: double)"
  by (simp add: fadd_def isnan_qnan_64)

lemma not_fge_nan: "isnan a \<or> isnan b \<Longrightarrow> \<not> fge a b"
  by (simp add: fge_def)

lemma mant_eq_0_iff: "mant x = 0 \<longleftrightarrow> mag x = 0"
  using mag_expo_fraction [of x] by (auto simp: mant_def)

lemma fadd_zero_64:
  fixes c :: double
  assumes "\<not> isnan c"
  shows "\<not> isnan (fadd c 0) \<and> key (fadd c 0) = key c"
proof (cases "isinf c")
  case True
  then show ?thesis using assms by (simp add: fadd_def not_isnan_0 isinf_0 emax_64)
next
  case False
  have fin: "mag c < infm TYPE(64)"
    using assms False by (auto simp: isnan_def isinf_def isfinite_iff [symmetric] isfinite_def
        dest: le_neq_implies_less [OF expo_le_emax [OF wf_format_64]])
  show ?thesis
  proof (cases "mag c = 0")
    case True
    have "fadd c 0 = pack False 0"
      using assms False True
      by (simp add: fadd_def not_isnan_0 isinf_0 emax_64 zero_facts smant_def mant_eq_0_iff sign_0)
    moreover have "mag (pack False 0 :: double) = 0" by (rule mag_pack) simp
    ultimately show ?thesis
      using True by (simp add: key_def isnan_iff [OF wf_format_64])
  next
    case nz: False
    have m: "0 < mant c" using nz by (simp add: mant_eq_0_iff [symmetric])
    have "\<not> int (mant c) * 2 ^ uexp c < 0" by (simp add: not_less)
    then have "fadd c 0 = fround (sign c) (mant c * 2 ^ uexp c) 0"
      using assms False m
      by (simp add: fadd_def not_isnan_0 isinf_0 emax_64 zero_facts smant_def Let_def
          nat_mult_distrib nat_power_eq abs_mult)
    also have "\<dots> = pack (sign c) (mag c)"
      using fin by (simp add: fround_def round_mag_exact)
    finally show ?thesis using assms by (simp add: pack_sign_mag)
  qed
qed

section \<open>Evaluation of concrete patterns\<close>

lemmas decode = sign_def mag_def expo_def fraction_def mant_def uexp_def smant_def
  isnan_def isinf_def isfinite_def emax_def fbits_def bias_def

lemmas eval_arith = fadd_def fmul_def to_float_def fround_def fmax_def Let_def decode

lemmas eval_round = round_mag_def Let_def infm_def emax_def fbits_def bitlen.simps

lemmas eval_cmp = flt_iff feq_iff fge_iff fgt_def key_def decode

section \<open>Facts about the matchers\<close>

lemma not_fge_iff: "\<not> fge a b \<longleftrightarrow> flt a b \<or> isnan a \<or> isnan b"
  by (auto simp: fge_iff flt_iff)

lemma not_flt_iff: "\<not> flt a b \<longleftrightarrow> fge a b \<or> isnan a \<or> isnan b"
  by (auto simp: fge_iff flt_iff)

lemma one_facts: "\<not> isnan one" "key one = 0x3FF0000000000000"
  by (simp_all add: one_def eval_cmp)

lemma feq_nonfinite:
  fixes a b :: "'a::len word"
  assumes "wf_format TYPE('a)" "\<not> isnan a" "\<not> isnan b" "\<not> isfinite a \<or> \<not> isfinite b"
  shows "feq a b \<longleftrightarrow> a = b"
proof
  assume "feq a b"
  then have k: "key a = key b" by (simp add: feq_iff)
  have "0 < mag a \<or> 0 < mag b"
    using assms(4) infm_gt_1 [OF assms(1)] by (auto simp: isfinite_iff)
  then show "a = b"
    using k by (auto simp: key_def word_eq_sign_mag split: if_splits)
next
  assume "a = b"
  then show "feq a b" using assms by (simp add: feq_iff)
qed

lemma abs64_exact: "and_then (exact_dist k) abs64 = (if \<bar>k\<bar> < 2 ^ 63 then Inr \<bar>k\<bar> else Inl SignedOverflow)"
proof -
  have "(- 9223372036854775808 :: int) \<le> \<bar>k\<bar>" by linarith
  then show ?thesis
    by (simp add: exact_dist_def and_then_def abs64_def chk64_def int64_range_def)
qed

lemma uint64_le: "0 \<le> k \<Longrightarrow> k < 2 ^ 63 \<Longrightarrow> (word_of_int k :: 64 word) \<le> u \<longleftrightarrow> k \<le> uint u"
  by (simp add: word_le_def uint_word_of_int take_bit_int_eq_self)

lemma almostEqualUlps_spec:
  fixes a b :: "'a::len word"
  assumes "LENGTH('a) \<le> 64" "wf_format TYPE('a)"
  shows "almostEqualUlps a b u = ulp_match_spec a b u"
proof (cases "isfinite a \<and> isfinite b")
  case True
  then have n: "\<not> isnan a" "\<not> isnan b" by (simp_all add: finite_not_nan)
  have d: "ulpDistance a b = exact_dist (key b - key a)"
    using True by (simp add: ulpDistance_exact [OF assms(1)])
  show ?thesis
    using True n
    by (simp add: almostEqualUlps_def ulp_match_spec_def d abs64_exact)
       (simp add: exact_dist_def and_then_def uint64_le)
next
  case False
  then show ?thesis
    by (auto simp: almostEqualUlps_def ulp_match_spec_def feq_nonfinite [OF assms(2)])
qed

lemma infm_32: "infm TYPE(32) = 0x7F800000"
  by (simp add: infm_def emax_def fbits_def)

lemma infm_less: "infm TYPE('a::len) < 2 ^ (LENGTH('a) - 1)"
proof (cases "wf_format TYPE('a)")
  case True
  then have "fbits TYPE('a) \<le> LENGTH('a) - 1" by (simp add: wf_format_def)
  then have "(2::nat) ^ (LENGTH('a) - 1) = 2 ^ (LENGTH('a) - 1 - fbits TYPE('a)) * 2 ^ fbits TYPE('a)"
    by (simp add: power_add [symmetric])
  then show ?thesis by (simp add: infm_def emax_def diff_mult_distrib)
next
  case False
  then have "LENGTH('a) - 1 - fbits TYPE('a) = 0" by (simp add: wf_format_def)
  then show ?thesis by (simp add: infm_def emax_def)
qed

lemma mag_fround_le: "mag (fround s m e :: 'a::len word) \<le> infm TYPE('a)"
proof -
  have "min (round_mag (fbits TYPE('a)) m e) (infm TYPE('a)) < 2 ^ (LENGTH('a) - 1)"
    using infm_less [where 'a = 'a] by simp
  then show ?thesis
    unfolding fround_def by (subst mag_pack) simp_all
qed

lemma isnan_to_float: "isnan (to_float x) \<longleftrightarrow> isnan x"
proof -
  have q: "mag (qnan :: float) = 0x7FC00000"
    unfolding qnan_def by (subst mag_pack) (simp_all add: infm_32 fbits_def)
  have 1: "isnan (pack s (mag (qnan :: float)) :: float)" for s
    unfolding q by (subst isnan_iff [OF wf_format_32], subst mag_pack) (simp_all add: infm_32)
  have 2: "\<not> isnan (pack s (infm TYPE(32)) :: float)" for s
    by (subst isnan_iff [OF wf_format_32], subst mag_pack) (simp_all add: infm_32)
  have 3: "\<not> isnan (fround s m e :: float)" for s m e
    using mag_fround_le [of s m e, where 'a = 32] by (simp add: isnan_iff [OF wf_format_32])
  show ?thesis
    by (simp add: to_float_def 1 2 3)
qed

section \<open>Stepping to the next value\<close>

declare step_loop.simps [simp del] dexp_up.simps [simp del] dexp_down.simps [simp del]
  show_nat.simps [simp del]

lemma mag_pinf: "mag (pinf :: 'a::len word) = infm TYPE('a)"
  unfolding pinf_def by (rule mag_pack) (rule infm_less)

lemma sign_pinf: "\<not> sign (pinf :: 'a::len word)"
  unfolding pinf_def using sign_pack [OF infm_less, of False, where 'a = 'a] by simp

lemma key_pinf: "key (pinf :: 'a::len word) = int (infm TYPE('a))"
  by (simp add: key_def mag_pinf sign_pinf)

lemma not_nan_key_le:
  assumes "wf_format TYPE('a)" "\<not> isnan (x :: 'a::len word)"
  shows "\<bar>key x\<bar> \<le> int (infm TYPE('a))"
  using assms by (simp add: isnan_iff key_def)

lemma not_isnan_pinf: "wf_format TYPE('a) \<Longrightarrow> \<not> isnan (pinf :: 'a::len word)"
  by (simp add: isnan_iff mag_pinf)

lemma nextafter_up:
  fixes x :: "'a::len word"
  assumes wf: "wf_format TYPE('a)" and nn: "\<not> isnan x"
  shows "\<not> isnan (nextafter x pinf) \<and> key (nextafter x pinf) = min (key x + 1) (int (infm TYPE('a)))"
proof -
  have le: "mag x \<le> infm TYPE('a)" using nn by (simp add: isnan_iff [OF wf])
  have lt: "infm TYPE('a) < 2 ^ (LENGTH('a) - 1)" by (rule infm_less)
  have np: "\<not> isnan (pinf :: 'a word)" by (rule not_isnan_pinf [OF wf])
  have one: "(1::nat) < 2 ^ (LENGTH('a) - 1)" using infm_gt_1 [OF wf] lt by simp
  consider (eq) "\<not> sign x" "mag x = infm TYPE('a)" | (zero) "mag x = 0"
    | (neg) "sign x" "0 < mag x" | (pos) "\<not> sign x" "0 < mag x" "mag x < infm TYPE('a)"
    using le by atomize_elim auto
  then show ?thesis
  proof cases
    case eq
    then have k: "key x = int (infm TYPE('a))" by (simp add: key_def)
    then have "nextafter x pinf = pinf" using nn np by (simp add: nextafter_def feq_iff key_pinf)
    then show ?thesis using np k by (simp add: key_pinf)
  next
    case zero
    then have "nextafter x pinf = pack False 1"
      using nn np infm_gt_1 [OF wf] by (simp add: nextafter_def feq_iff flt_iff key_def mag_pinf sign_pinf)
    moreover have "mag (pack False 1 :: 'a word) = 1" "\<not> sign (pack False 1 :: 'a word)"
      using one by (simp_all add: mag_pack sign_pack)
    ultimately show ?thesis
      using zero infm_gt_1 [OF wf] by (simp add: isnan_iff [OF wf] key_def)
  next
    case neg
    then have "nextafter x pinf = pack True (mag x - 1)"
      using nn np by (simp add: nextafter_def feq_iff flt_iff key_def mag_pinf sign_pinf)
    moreover have "mag (pack True (mag x - 1) :: 'a word) = mag x - 1"
      "sign (pack True (mag x - 1) :: 'a word)"
      using mag_less [of x] by (simp_all add: mag_pack sign_pack less_imp_diff_less)
    ultimately show ?thesis
      using neg le by (simp add: isnan_iff [OF wf] key_def)
  next
    case pos
    then have "nextafter x pinf = pack False (mag x + 1)"
      using nn np by (simp add: nextafter_def feq_iff flt_iff key_def mag_pinf sign_pinf)
    moreover have "mag x + 1 < 2 ^ (LENGTH('a) - 1)" using pos lt by simp
    then have "mag (pack False (mag x + 1) :: 'a word) = mag x + 1"
      "\<not> sign (pack False (mag x + 1) :: 'a word)"
      by (simp_all add: mag_pack sign_pack)
    ultimately show ?thesis
      using pos by (simp add: isnan_iff [OF wf] key_def)
  qed
qed


lemma key_ninf: "key (fneg pinf :: 'a::len word) = - int (infm TYPE('a))"
  by (simp add: key_fneg key_pinf)

lemma not_isnan_ninf: "wf_format TYPE('a) \<Longrightarrow> \<not> isnan (fneg pinf :: 'a::len word)"
  by (simp add: isnan_iff mag_fneg mag_pinf)

lemma nextafter_down:
  fixes x :: "'a::len word"
  assumes wf: "wf_format TYPE('a)" and nn: "\<not> isnan x"
  shows "\<not> isnan (nextafter x (fneg pinf))
       \<and> key (nextafter x (fneg pinf)) = max (key x - 1) (- int (infm TYPE('a)))"
proof -
  have le: "mag x \<le> infm TYPE('a)" using nn by (simp add: isnan_iff [OF wf])
  have lt: "infm TYPE('a) < 2 ^ (LENGTH('a) - 1)" by (rule infm_less)
  have np: "\<not> isnan (fneg pinf :: 'a word)" by (rule not_isnan_ninf [OF wf])
  have one: "(1::nat) < 2 ^ (LENGTH('a) - 1)" using infm_gt_1 [OF wf] lt by simp
  note pm = mag_fneg sign_fneg mag_pinf sign_pinf
  consider (eq) "sign x" "mag x = infm TYPE('a)" | (zero) "mag x = 0"
    | (pos) "\<not> sign x" "0 < mag x" | (neg) "sign x" "0 < mag x" "mag x < infm TYPE('a)"
    using le by atomize_elim auto
  then show ?thesis
  proof cases
    case eq
    then have k: "key x = - int (infm TYPE('a))" by (simp add: key_def)
    then have "nextafter x (fneg pinf) = fneg pinf"
      using nn np by (simp add: nextafter_def feq_iff key_ninf)
    then show ?thesis using np k by (simp add: key_ninf)
  next
    case zero
    then have "nextafter x (fneg pinf) = pack True 1"
      using nn np infm_gt_1 [OF wf] by (simp add: nextafter_def feq_iff flt_iff key_def pm)
    moreover have "mag (pack True 1 :: 'a word) = 1" "sign (pack True 1 :: 'a word)"
      using one by (simp_all add: mag_pack sign_pack)
    ultimately show ?thesis
      using zero infm_gt_1 [OF wf] by (simp add: isnan_iff [OF wf] key_def)
  next
    case pos
    then have "nextafter x (fneg pinf) = pack False (mag x - 1)"
      using nn np by (simp add: nextafter_def feq_iff flt_iff key_def pm)
    moreover have "mag (pack False (mag x - 1) :: 'a word) = mag x - 1"
      "\<not> sign (pack False (mag x - 1) :: 'a word)"
      using mag_less [of x] by (simp_all add: mag_pack sign_pack less_imp_diff_less)
    ultimately show ?thesis
      using pos le by (simp add: isnan_iff [OF wf] key_def)
  next
    case neg
    then have "nextafter x (fneg pinf) = pack True (mag x + 1)"
      using nn np by (simp add: nextafter_def feq_iff flt_iff key_def pm)
    moreover have "mag x + 1 < 2 ^ (LENGTH('a) - 1)" using neg lt by simp
    then have "mag (pack True (mag x + 1) :: 'a word) = mag x + 1"
      "sign (pack True (mag x + 1) :: 'a word)"
      by (simp_all add: mag_pack sign_pack)
    ultimately show ?thesis
      using neg by (simp add: isnan_iff [OF wf] key_def)
  qed
qed

lemma step_loop_funpow:
  "step_loop start direction steps i = ((\<lambda>s. nextafter s direction) ^^ (steps - i)) start"
proof (induction start direction steps i rule: step_loop.induct)
  case (1 start direction steps i)
  show ?case
  proof (cases "i < steps")
    case True
    then have "steps - i = Suc (steps - (i + 1))" by simp
    then have "((\<lambda>s. nextafter s direction) ^^ (steps - i)) start
        = ((\<lambda>s. nextafter s direction) ^^ (steps - (i + 1))) (nextafter start direction)"
      by (simp only: funpow_Suc_right o_apply)
    then show ?thesis
      using "1.IH" [OF True] True
      by (subst step_loop.simps) simp
  next
    case False
    then show ?thesis by (subst step_loop.simps) simp
  qed
qed

lemma step_funpow: "step start direction steps = ((\<lambda>s. nextafter s direction) ^^ unat steps) start"
  by (simp add: step_def step_loop_funpow)

lemma funpow_up:
  fixes x :: "'a::len word"
  assumes wf: "wf_format TYPE('a)" and nn: "\<not> isnan x"
  shows "\<not> isnan (((\<lambda>s. nextafter s pinf) ^^ n) x)
       \<and> key (((\<lambda>s. nextafter s pinf) ^^ n) x) = min (key x + int n) (int (infm TYPE('a)))"
proof (induction n)
  case 0
  show ?case using nn not_nan_key_le [OF wf nn] by simp
next
  case (Suc n)
  then show ?case
    using nextafter_up [OF wf, of "((\<lambda>s. nextafter s pinf) ^^ n) x"] by simp
qed

lemma funpow_down:
  fixes x :: "'a::len word"
  assumes wf: "wf_format TYPE('a)" and nn: "\<not> isnan x"
  shows "\<not> isnan (((\<lambda>s. nextafter s (fneg pinf)) ^^ n) x)
       \<and> key (((\<lambda>s. nextafter s (fneg pinf)) ^^ n) x)
           = max (key x - int n) (- int (infm TYPE('a)))"
proof (induction n)
  case 0
  show ?case using nn not_nan_key_le [OF wf nn] by simp
next
  case (Suc n)
  then show ?case
    using nextafter_down [OF wf, of "((\<lambda>s. nextafter s (fneg pinf)) ^^ n) x"] by simp
qed

lemma step_keys:
  fixes x :: "'a::len word"
  assumes "wf_format TYPE('a)" "\<not> isnan x"
  shows "\<not> isnan (step x pinf n) \<and> \<not> isnan (step x (fneg pinf) n)
       \<and> key (step x pinf n) = min (key x + uint n) (key (pinf :: 'a word))
       \<and> key (step x (fneg pinf) n) = max (key x - uint n) (key (fneg pinf :: 'a word))"
  using funpow_up [OF assms, of "unat n"] funpow_down [OF assms, of "unat n"]
  by (simp add: step_funpow key_pinf key_ninf)

section \<open>The distance to the neighbouring values\<close>

lemma umag_of_step: "umag_of fb (Suc n) = umag_of fb n + 2 ^ (n div 2 ^ fb - 1)"
proof -
  define e where "e = n div 2 ^ fb"
  define f where "f = n mod 2 ^ fb"
  have f: "f < 2 ^ fb" by (simp add: f_def)
  have U0: "umag_of fb n = (if e = 0 then f else (2 ^ fb + f) * 2 ^ (e - 1))"
    by (simp add: umag_of_def e_def f_def)
  show ?thesis
  proof (cases "Suc f = 2 ^ fb")
    case True
    then have s: "Suc n mod 2 ^ fb = 0" "Suc n div 2 ^ fb = Suc e"
      by (simp_all add: mod_Suc div_Suc e_def f_def)
    have U1: "umag_of fb (Suc n) = 2 ^ fb * 2 ^ e"
      by (simp add: umag_of_def s)
    have "2 ^ fb * 2 ^ e = umag_of fb n + 2 ^ (e - 1)"
    proof (cases e)
      case 0
      then show ?thesis using True by (simp add: U0)
    next
      case (Suc e')
      have "(2 ^ fb + f) * 2 ^ e' + 2 ^ e' = (2 ^ fb + Suc f) * 2 ^ e'"
        by (simp add: algebra_simps)
      also have "\<dots> = 2 ^ fb * 2 ^ Suc e'"
        by (simp only: True) simp
      finally show ?thesis by (simp add: U0 Suc)
    qed
    then show ?thesis by (simp only: U1 e_def)
  next
    case False
    then have s: "Suc n mod 2 ^ fb = Suc f" "Suc n div 2 ^ fb = e"
      by (simp_all add: mod_Suc div_Suc e_def f_def)
    have "umag_of fb (Suc n) = (if e = 0 then Suc f else (2 ^ fb + Suc f) * 2 ^ (e - 1))"
      by (simp add: umag_of_def s)
    then have "umag_of fb (Suc n) = umag_of fb n + 2 ^ (e - 1)"
      by (simp add: U0 algebra_simps)
    then show ?thesis by (simp only: e_def)
  qed
qed

lemma umag_of_bound:
  "umag_of fb n + 2 ^ (n div 2 ^ fb - 1) \<le> 2 ^ (fb + 1) * 2 ^ (n div 2 ^ fb - 1)"
proof -
  have f: "n mod 2 ^ fb + 1 \<le> 2 ^ fb" by (simp add: Suc_leI)
  show ?thesis
  proof (cases "n div 2 ^ fb = 0")
    case True
    then show ?thesis using f by (simp add: umag_of_def)
  next
    case False
    have "(2 ^ fb + n mod 2 ^ fb) * 2 ^ (n div 2 ^ fb - 1) + 2 ^ (n div 2 ^ fb - 1)
        = (2 ^ fb + (n mod 2 ^ fb + 1)) * 2 ^ (n div 2 ^ fb - 1)"
      by (simp add: algebra_simps)
    also have "\<dots> \<le> (2 * 2 ^ fb) * 2 ^ (n div 2 ^ fb - 1)"
      using f by (intro mult_le_mono1) simp
    finally show ?thesis using False by (simp add: umag_of_def)
  qed
qed

lemma umag_of_mono: "m \<le> n \<Longrightarrow> umag_of fb m \<le> umag_of fb n"
  using umag_of_less_iff [of fb n m] by (simp add: not_less [symmetric])

lemma gap_above:
  assumes "m < n"
  shows "umag_of fb m < 2 ^ (fb + 1) * (umag_of fb n - umag_of fb m)"
proof -
  define j where "j = m div 2 ^ fb - 1"
  have "umag_of fb (Suc m) \<le> umag_of fb n" using assms by (intro umag_of_mono) simp
  then have "2 ^ j \<le> umag_of fb n - umag_of fb m"
    by (simp add: umag_of_step j_def)
  then have "2 ^ (fb + 1) * 2 ^ j \<le> 2 ^ (fb + 1) * (umag_of fb n - umag_of fb m)"
    by (rule mult_le_mono2)
  moreover have "umag_of fb m + 2 ^ j \<le> 2 ^ (fb + 1) * 2 ^ j"
    using umag_of_bound [of fb m] by (simp only: j_def)
  moreover have "(1::nat) \<le> 2 ^ j" by simp
  ultimately show ?thesis by linarith
qed

lemma gap_below:
  assumes "n < m"
  shows "umag_of fb m \<le> 2 ^ (fb + 1) * (umag_of fb m - umag_of fb n)"
proof -
  obtain k where k: "m = Suc k" using assms by (cases m) simp_all
  define j where "j = k div 2 ^ fb - 1"
  have "umag_of fb n \<le> umag_of fb k" using assms k by (intro umag_of_mono) simp
  then have "2 ^ j \<le> umag_of fb m - umag_of fb n"
    by (simp add: k umag_of_step j_def)
  then have "2 ^ (fb + 1) * 2 ^ j \<le> 2 ^ (fb + 1) * (umag_of fb m - umag_of fb n)"
    by (rule mult_le_mono2)
  moreover have "umag_of fb k + 2 ^ j \<le> 2 ^ (fb + 1) * 2 ^ j"
    using umag_of_bound [of fb k] by (simp only: j_def)
  moreover have "umag_of fb m = umag_of fb k + 2 ^ j"
    by (simp only: k umag_of_step j_def)
  ultimately show ?thesis by linarith
qed

text \<open>Any other value of the format is at least \<open>\<bar>units x\<bar> / 2 ^ (fb + 1)\<close> away.\<close>

lemma units_gap:
  fixes x y :: "'a::len word"
  assumes "units y \<noteq> units x"
  shows "\<bar>units x\<bar> \<le> 2 ^ (fbits TYPE('a) + 1) * \<bar>units y - units x\<bar>"
proof (cases "sign x = sign y")
  case True
  have ne: "mag x \<noteq> mag y" using assms True by (auto simp: units_def umag_umag_of)
  let ?fb = "fbits TYPE('a)"
  have "int (umag_of ?fb (mag x))
      \<le> 2 ^ (?fb + 1) * \<bar>int (umag_of ?fb (mag y)) - int (umag_of ?fb (mag x))\<bar>"
  proof (cases "mag x < mag y")
    case True
    have le: "umag_of ?fb (mag x) \<le> umag_of ?fb (mag y)" using True by (intro umag_of_mono) simp
    have "int (umag_of ?fb (mag x)) < int (2 ^ (?fb + 1) * (umag_of ?fb (mag y) - umag_of ?fb (mag x)))"
      using gap_above [OF True, of ?fb] by (simp only: of_nat_less_iff)
    then show ?thesis using le by (simp add: of_nat_diff)
  next
    case False
    then have lt: "mag y < mag x" using ne by simp
    have le: "umag_of ?fb (mag y) \<le> umag_of ?fb (mag x)" using lt by (intro umag_of_mono) simp
    have "int (umag_of ?fb (mag x)) \<le> int (2 ^ (?fb + 1) * (umag_of ?fb (mag x) - umag_of ?fb (mag y)))"
      using gap_below [OF lt, of ?fb] by (simp only: of_nat_le_iff)
    then show ?thesis using le by (simp add: of_nat_diff)
  qed
  moreover from this have "int (umag_of ?fb (mag x))
      \<le> 2 ^ (?fb + 1) * \<bar>int (umag_of ?fb (mag x)) - int (umag_of ?fb (mag y))\<bar>"
    by (simp only: abs_minus_commute)
  ultimately show ?thesis using True by (simp add: units_def umag_umag_of)
next
  case False
  have a: "\<bar>units x\<bar> \<le> \<bar>units y - units x\<bar>"
    using False by (auto simp: units_def)
  have "(1::int) \<le> 2 ^ (fbits TYPE('a) + 1)"
    by (rule one_le_power) simp
  then have "1 * \<bar>units y - units x\<bar> \<le> 2 ^ (fbits TYPE('a) + 1) * \<bar>units y - units x\<bar>"
    by (intro mult_right_mono) simp_all
  then have b: "\<bar>units y - units x\<bar> \<le> 2 ^ (fbits TYPE('a) + 1) * \<bar>units y - units x\<bar>"
    by (simp only: mult_1)
  from a b show ?thesis by (rule order_trans)
qed

section \<open>The error of the rendered decimal\<close>

lemma round_div_int:
  assumes "0 < d"
  shows "2 * \<bar>int (round_div n d) * int d - int n\<bar> \<le> int d"
proof -
  define q where "q = n div d"
  define r where "r = n mod d"
  have n: "int n = int q * int d + int r"
    by (simp add: q_def r_def flip: of_nat_mult of_nat_add)
  have r: "r < d" using assms by (simp add: r_def)
  show ?thesis
  proof (cases "d < 2 * r \<or> (2 * r = d \<and> odd q)")
    case True
    then have "round_div n d = q + 1"
      by (simp add: round_div_def Let_def q_def r_def)
    moreover have "int d \<le> 2 * int r" using True by auto
    ultimately show ?thesis using r by (simp add: n algebra_simps)
  next
    case False
    then have "round_div n d = q"
      by (simp add: round_div_def Let_def q_def r_def)
    moreover have "2 * int r \<le> int d" using False by auto
    ultimately show ?thesis by (simp add: n)
  qed
qed

lemma round_div_real:
  assumes "0 < d"
  shows "\<bar>real (round_div n d) - real n / real d\<bar> \<le> 1 / 2"
proof -
  have "real_of_int (2 * \<bar>int (round_div n d) * int d - int n\<bar>) \<le> real_of_int (int d)"
    using round_div_int [OF assms, of n] by (simp only: of_int_le_iff)
  then have "2 * \<bar>real (round_div n d) * real d - real n\<bar> \<le> real d"
    by simp
  moreover have "\<bar>real (round_div n d) * real d - real n\<bar>
      = \<bar>real (round_div n d) - real n / real d\<bar> * real d"
  proof -
    have "real (round_div n d) * real d - real n = (real (round_div n d) - real n / real d) * real d"
      using assms by (simp add: left_diff_distrib)
    then show ?thesis by (simp only: abs_mult)
  qed
  ultimately have "2 * \<bar>real (round_div n d) - real n / real d\<bar> * real d \<le> 1 * real d"
    by simp
  then have "2 * \<bar>real (round_div n d) - real n / real d\<bar> \<le> 1"
    using assms by (simp only: mult_le_cancel_right)
  then show ?thesis by simp
qed

lemma dexp_up_le: "0 < M \<Longrightarrow> 10 ^ e * M \<le> N \<Longrightarrow> 10 ^ dexp_up N M e * M \<le> N"
proof (induction N M e rule: dexp_up.induct)
  case (1 N M e)
  show ?case
  proof (cases "0 < M \<and> 10 ^ (e + 1) * M \<le> N")
    case True
    then show ?thesis using "1.IH" by (subst dexp_up.simps) simp
  next
    case False
    then show ?thesis using "1.prems" by (subst dexp_up.simps) simp
  qed
qed

lemma dexp_down_ge: "0 < N \<Longrightarrow> M \<le> N * 10 ^ dexp_down N M k"
proof (induction N M k rule: dexp_down.induct)
  case (1 N M k)
  show ?case
  proof (cases "0 < N \<and> N * 10 ^ k < M")
    case True
    then show ?thesis using "1.IH" by (subst dexp_down.simps) simp
  next
    case False
    then show ?thesis using "1.prems" by (subst dexp_down.simps) simp
  qed
qed

lemma dexp_le:
  assumes "0 < N" "0 < M"
  shows "10 powi dexp N M \<le> real N / real M"
proof (cases "M \<le> N")
  case True
  have "10 ^ dexp_up N M 0 * M \<le> N"
    using assms True by (intro dexp_up_le) simp_all
  then have "real (10 ^ dexp_up N M 0 * M) \<le> real N"
    by (simp only: of_nat_le_iff)
  then have "10 ^ dexp_up N M 0 * real M \<le> real N" by simp
  then have "10 ^ dexp_up N M 0 \<le> real N / real M"
    using assms by (simp add: pos_le_divide_eq)
  then show ?thesis using True by (simp add: dexp_def)
next
  case False
  have "M \<le> N * 10 ^ dexp_down N M 0"
    using assms by (intro dexp_down_ge)
  then have "real M \<le> real (N * 10 ^ dexp_down N M 0)"
    by (simp only: of_nat_le_iff)
  then have "real M \<le> real N * 10 ^ dexp_down N M 0" by simp
  then have "1 / 10 ^ dexp_down N M 0 \<le> real N / real M"
    using assms by (simp add: field_simps)
  then show ?thesis using False by (simp add: dexp_def power_int_minus divide_simps)
qed

lemma power_ratio: "(10::real) ^ nat (int p - E) / 10 ^ nat (E - int p) = 10 powi (int p - E)"
proof (cases "E \<le> int p")
  case True
  then show ?thesis by (simp add: power_int_def)
next
  case False
  then have "10 powi (int p - E) = (1 :: real) / 10 ^ nat (E - int p)"
    by (simp add: power_int_def divide_simps)
  then show ?thesis using False by simp
qed

lemma sci_digits_error:
  assumes "0 < N" "0 < M" "sci_digits p N M = (D, E)"
  shows "\<bar>real D * 10 powi (E - int p) - real N / real M\<bar> \<le> real N / real M / (2 * 10 ^ p)"
proof -
  define v where "v = real N / real M"
  define E0 where "E0 = dexp N M"
  define D0 where "D0 = round_div (N * 10 ^ nat (int p - E0)) (M * 10 ^ nat (E0 - int p))"
  define u :: real where "u = 10 powi (E0 - int p)"
  have u: "0 < u" by (simp add: u_def)
  have E0: "10 powi E0 \<le> v" unfolding v_def E0_def by (rule dexp_le) fact+
  have val: "real D * 10 powi (E - int p) = real D0 * u"
  proof (cases "D0 = 10 ^ (p + 1)")
    case True
    then have "D = 10 ^ p" "E = E0 + 1"
      using assms(3) by (simp_all add: sci_digits_def Let_def E0_def [symmetric] D0_def [symmetric])
    moreover have "(10::real) powi (E0 + 1 - int p) = 10 * 10 powi (E0 - int p)"
    proof -
      have "E0 + 1 - int p = 1 + (E0 - int p)" by simp
      then have "(10::real) powi (E0 + 1 - int p) = 10 powi (1 + (E0 - int p))" by (simp only:)
      also have "\<dots> = 10 powi 1 * 10 powi (E0 - int p)" by (rule power_int_add) simp
      finally show ?thesis by simp
    qed
    ultimately show ?thesis using True by (simp add: u_def)
  next
    case False
    then have "D = D0" "E = E0"
      using assms(3) by (simp_all add: sci_digits_def Let_def E0_def [symmetric] D0_def [symmetric])
    then show ?thesis by (simp add: u_def)
  qed
  have "real (N * 10 ^ nat (int p - E0)) / real (M * 10 ^ nat (E0 - int p))
      = v * ((10::real) ^ nat (int p - E0) / 10 ^ nat (E0 - int p))"
    by (simp add: v_def)
  also have "\<dots> = v * 10 powi (int p - E0)" by (simp only: power_ratio)
  also have "\<dots> = v / u"
    by (simp add: u_def power_int_diff divide_simps)
  finally have q: "real (N * 10 ^ nat (int p - E0)) / real (M * 10 ^ nat (E0 - int p)) = v / u" .
  have "0 < M * 10 ^ nat (E0 - int p)" using assms by simp
  then have "\<bar>real D0 - v / u\<bar> \<le> 1 / 2"
    unfolding D0_def q [symmetric] by (rule round_div_real)
  then have "\<bar>real D0 - v / u\<bar> * u \<le> 1 / 2 * u"
    using u by (intro mult_right_mono) simp_all
  moreover have "\<bar>real D0 - v / u\<bar> * u = \<bar>real D0 * u - v\<bar>"
  proof -
    have "real D0 * u - v = (real D0 - v / u) * u"
      using u by (simp add: left_diff_distrib)
    then show ?thesis using u by (simp only: abs_mult)
  qed
  ultimately have err: "\<bar>real D0 * u - v\<bar> \<le> u / 2" by simp
  have "u = 10 powi E0 / 10 ^ p"
    by (simp add: u_def power_int_diff)
  also have "\<dots> \<le> v / 10 ^ p"
    using E0 by (intro divide_right_mono) simp_all
  finally have "u / 2 \<le> v / (2 * 10 ^ p)" by simp
  with err have "\<bar>real D0 * u - v\<bar> \<le> v / (2 * 10 ^ p)" by (rule order_trans)
  then show ?thesis by (simp only: val v_def)
qed

lemma dexp_up_gt: "0 < M \<Longrightarrow> N < 10 ^ (dexp_up N M e + 1) * M"
proof (induction N M e rule: dexp_up.induct)
  case (1 N M e)
  show ?case
  proof (cases "0 < M \<and> 10 ^ (e + 1) * M \<le> N")
    case True
    then show ?thesis using "1.IH" by (subst dexp_up.simps) simp
  next
    case False
    then show ?thesis using "1.prems" by (subst dexp_up.simps) (simp add: not_le)
  qed
qed

lemma dexp_down_lt:
  "0 < N \<Longrightarrow> k = 0 \<or> N * 10 ^ (k - 1) < M
   \<Longrightarrow> dexp_down N M k = 0 \<or> N * 10 ^ (dexp_down N M k - 1) < M"
proof (induction N M k rule: dexp_down.induct)
  case (1 N M k)
  show ?case
  proof (cases "0 < N \<and> N * 10 ^ k < M")
    case True
    then have "dexp_down N M (k + 1) = 0 \<or> N * 10 ^ (dexp_down N M (k + 1) - 1) < M"
      using "1.prems" by (intro "1.IH") simp_all
    then show ?thesis using True by (subst dexp_down.simps, subst (2) dexp_down.simps) simp
  next
    case False
    then show ?thesis using "1.prems" by (subst dexp_down.simps, subst (2) dexp_down.simps) simp
  qed
qed

lemma dexp_down_start: "k \<le> dexp_down N M k"
proof (induction N M k rule: dexp_down.induct)
  case (1 N M k)
  show ?case
  proof (cases "0 < N \<and> N * 10 ^ k < M")
    case True
    then have "k + 1 \<le> dexp_down N M (k + 1)" by (rule "1.IH")
    moreover have "dexp_down N M k = dexp_down N M (k + 1)"
      using True by (subst dexp_down.simps) simp
    ultimately show ?thesis by linarith
  next
    case False
    then show ?thesis by (subst dexp_down.simps) auto
  qed
qed

lemma dexp_gt:
  assumes "0 < N" "0 < M"
  shows "real N / real M < 10 powi (dexp N M + 1)"
proof (cases "M \<le> N")
  case True
  have "N < 10 ^ (dexp_up N M 0 + 1) * M" using assms by (intro dexp_up_gt)
  then have "real N < real (10 ^ (dexp_up N M 0 + 1) * M)" by (simp only: of_nat_less_iff)
  then have "real N < 10 ^ (dexp_up N M 0 + 1) * real M" by simp
  then have "real N / real M < 10 ^ (dexp_up N M 0 + 1)"
    using assms by (simp add: pos_divide_less_eq)
  moreover have "(10::real) powi (int (dexp_up N M 0) + 1) = 10 ^ (dexp_up N M 0 + 1)"
    by (simp add: power_int_def nat_add_distrib)
  ultimately show ?thesis using True by (simp only: dexp_def if_True)
next
  case False
  define r where "r = dexp_down N M 0"
  have "r = 0 \<or> N * 10 ^ (r - 1) < M"
    unfolding r_def using assms by (intro dexp_down_lt) simp_all
  moreover have "r \<noteq> 0"
  proof
    assume "r = 0"
    then have "dexp_down N M 0 = 0" by (simp only: r_def)
    then have "\<not> (0 < N \<and> N * 10 ^ 0 < M)"
      using dexp_down_start [of "0 + 1" N M]
      by (subst (asm) dexp_down.simps) (auto split: if_splits)
    then show False using False assms by simp
  qed
  ultimately have lt: "N * 10 ^ (r - 1) < M" and r: "0 < r" by simp_all
  have "real (N * 10 ^ (r - 1)) < real M" using lt by (simp only: of_nat_less_iff)
  then have "real N * 10 ^ (r - 1) < real M" by simp
  then have "real N / real M < 1 / 10 ^ (r - 1)"
    using assms by (simp add: field_simps)
  moreover have "(10::real) powi (- int r + 1) = 1 / 10 ^ (r - 1)"
  proof -
    have "- int r + 1 = - int (r - 1)" using r by simp
    then show ?thesis by (simp only: power_int_minus power_int_of_nat) (simp add: divide_simps)
  qed
  ultimately show ?thesis using False by (simp only: dexp_def if_False r_def)
qed

lemma scaled_ratio:
  "0 < M \<Longrightarrow> real (N * 10 ^ nat (int p - E)) / real (M * 10 ^ nat (E - int p))
     = real N / real M * 10 powi (int p - E)"
  by (simp add: power_ratio [symmetric])

lemma round_div_le: "n < B * d \<Longrightarrow> round_div n d \<le> B"
proof -
  assume a: "n < B * d"
  then have "0 < d" by (cases d) simp_all
  then have "n div d < B" using a by (simp add: div_less_iff_less_mult mult.commute)
  then show ?thesis by (simp add: round_div_def Let_def)
qed

lemma sci_digits_bound:
  assumes "0 < N" "0 < M"
  shows "fst (sci_digits p N M) < 10 ^ (p + 1)"
proof -
  define E0 where "E0 = dexp N M"
  define n where "n = N * 10 ^ nat (int p - E0)"
  define d where "d = M * 10 ^ nat (E0 - int p)"
  have d: "0 < d" using assms by (simp add: d_def)
  have "real n / real d = real N / real M * 10 powi (int p - E0)"
    unfolding n_def d_def using assms(2) by (rule scaled_ratio)
  also have "\<dots> < 10 powi (E0 + 1) * 10 powi (int p - E0)"
    unfolding E0_def using dexp_gt [OF assms] by (intro mult_strict_right_mono) simp_all
  also have "\<dots> = 10 powi (E0 + 1 + (int p - E0))"
    by (rule power_int_add [symmetric]) simp
  also have "E0 + 1 + (int p - E0) = int (p + 1)" by simp
  finally have "real n / real d < 10 ^ (p + 1)" by (simp only: power_int_of_nat)
  then have "real n < 10 ^ (p + 1) * real d" using d by (simp add: pos_divide_less_eq)
  then have "real n < real (10 ^ (p + 1) * d)" by simp
  then have "n < 10 ^ (p + 1) * d" by (simp only: of_nat_less_iff)
  then have le: "round_div n d \<le> 10 ^ (p + 1)" by (rule round_div_le)
  show ?thesis
  proof (cases "round_div n d = 10 ^ (p + 1)")
    case True
    then show ?thesis
      by (simp add: sci_digits_def Let_def E0_def [symmetric] n_def [symmetric] d_def [symmetric])
  next
    case False
    then show ?thesis
      using le
      by (simp add: sci_digits_def Let_def E0_def [symmetric] n_def [symmetric] d_def [symmetric])
  qed
qed

lemma round_div_ge: "0 < d \<Longrightarrow> B * d \<le> n \<Longrightarrow> B \<le> round_div n d"
proof -
  assume "0 < d" "B * d \<le> n"
  then have "B \<le> n div d" by (simp add: less_eq_div_iff_mult_less_eq)
  then show ?thesis by (simp add: round_div_def Let_def)
qed

lemma sci_digits_lower:
  assumes "0 < N" "0 < M"
  shows "10 ^ p \<le> fst (sci_digits p N M)"
proof -
  define E0 where "E0 = dexp N M"
  define n where "n = N * 10 ^ nat (int p - E0)"
  define d where "d = M * 10 ^ nat (E0 - int p)"
  have d: "0 < d" using assms by (simp add: d_def)
  have "(10::real) ^ p = 10 powi (E0 + (int p - E0))" by (simp add: power_int_of_nat [symmetric] del: power_int_of_nat)
  also have "\<dots> = 10 powi E0 * 10 powi (int p - E0)"
    by (rule power_int_add) simp
  also have "\<dots> \<le> real N / real M * 10 powi (int p - E0)"
    unfolding E0_def using dexp_le [OF assms] by (intro mult_right_mono) simp_all
  also have "\<dots> = real n / real d"
    unfolding n_def d_def using assms(2) by (rule scaled_ratio [symmetric])
  finally have "10 ^ p * real d \<le> real n" using d by (simp add: pos_le_divide_eq)
  then have "real (10 ^ p * d) \<le> real n" by simp
  then have "10 ^ p * d \<le> n" by (simp only: of_nat_le_iff)
  then have le: "10 ^ p \<le> round_div n d" using d by (intro round_div_ge)
  show ?thesis
    using le
    by (simp add: sci_digits_def Let_def E0_def [symmetric] n_def [symmetric] d_def [symmetric])
qed

lemma decimal_of_bound:
  "fst (decimal_of x) < 10 ^ (max_digits10 TYPE('a) - 1 + 1)" for x :: "'a::len word"
proof (cases "mant x = 0")
  case True
  then show ?thesis by (simp add: decimal_of_def)
next
  case False
  define s where "s = bias TYPE('a) + fbits TYPE('a) - 1"
  have "0 < mant x * 2 ^ (uexp x - s)" "0 < (2::nat) ^ (s - uexp x)" using False by simp_all
  then have "fst (sci_digits (max_digits10 TYPE('a) - 1) (mant x * 2 ^ (uexp x - s)) (2 ^ (s - uexp x)))
      < 10 ^ (max_digits10 TYPE('a) - 1 + 1)"
    by (rule sci_digits_bound)
  moreover have "decimal_of x
      = sci_digits (max_digits10 TYPE('a) - 1) (mant x * 2 ^ (uexp x - s)) (2 ^ (s - uexp x))"
    using False by (simp add: decimal_of_def Let_def s_def)
  ultimately show ?thesis by (simp only:)
qed

lemma decimal_of_lower:
  fixes x :: "'a::len word"
  assumes "mag x \<noteq> 0"
  shows "10 ^ (max_digits10 TYPE('a) - 1) \<le> fst (decimal_of x)"
proof -
  have m: "mant x \<noteq> 0" using assms by (simp add: mant_eq_0_iff)
  define s where "s = bias TYPE('a) + fbits TYPE('a) - 1"
  have "0 < mant x * 2 ^ (uexp x - s)" "0 < (2::nat) ^ (s - uexp x)" using m by simp_all
  then have "10 ^ (max_digits10 TYPE('a) - 1)
      \<le> fst (sci_digits (max_digits10 TYPE('a) - 1) (mant x * 2 ^ (uexp x - s)) (2 ^ (s - uexp x)))"
    by (rule sci_digits_lower)
  moreover have "decimal_of x
      = sci_digits (max_digits10 TYPE('a) - 1) (mant x * 2 ^ (uexp x - s)) (2 ^ (s - uexp x))"
    using m by (simp add: decimal_of_def Let_def s_def)
  ultimately show ?thesis by (simp only:)
qed

section \<open>The rendered decimal identifies the value\<close>

lemma valof_eq_iff: "valof a = valof b \<longleftrightarrow> key a = key b" for a b :: "'a::len word"
  by (simp add: valof_def units_eq_iff)

lemma umag_mant: "umag x = mant x * 2 ^ uexp x"
  by (simp add: umag_def mant_def uexp_def)

lemma two_ratio: "(2::real) ^ (a - b) / 2 ^ (b - a) = 2 ^ a / 2 ^ b"
proof (cases "b \<le> a")
  case True
  then show ?thesis by (simp add: power_diff)
next
  case False
  then have "(2::real) ^ (b - a) = 2 ^ b / 2 ^ a" by (simp add: power_diff)
  then show ?thesis using False by simp
qed

lemma abs_valof:
  "\<bar>valof x\<bar> = real (umag x) / 2 ^ (bias TYPE('a) + fbits TYPE('a) - 1)" for x :: "'a::len word"
  by (simp add: valof_def units_def)

lemma valof_sign:
  "valof x = (if sign x then - 1 else 1) * (real (umag x) / 2 ^ (bias TYPE('a) + fbits TYPE('a) - 1))"
  for x :: "'a::len word"
  by (simp add: valof_def units_def)

lemma text_error:
  fixes x :: "'a::len word"
  shows "\<bar>text_value x - valof x\<bar> \<le> \<bar>valof x\<bar> / (2 * 10 ^ (max_digits10 TYPE('a) - 1))"
proof (cases "mant x = 0")
  case True
  then have "umag x = 0" by (simp add: umag_mant)
  then have "valof x = 0" by (simp add: valof_sign)
  moreover have "text_value x = 0" using True by (simp add: text_value_def decimal_of_def)
  ultimately show ?thesis by simp
next
  case False
  define p where "p = max_digits10 TYPE('a) - 1"
  define s where "s = bias TYPE('a) + fbits TYPE('a) - 1"
  define N where "N = mant x * 2 ^ (uexp x - s)"
  define M :: nat where "M = 2 ^ (s - uexp x)"
  define v where "v = real N / real M"
  obtain D E where de: "sci_digits p N M = (D, E)" by (cases "sci_digits p N M")
  have dec: "decimal_of x = (D, E)"
    using False de by (simp add: decimal_of_def Let_def p_def s_def N_def M_def)
  have pos: "0 < N" "0 < M" using False by (simp_all add: N_def M_def)
  have "real N / real M = real (mant x) * (2 ^ (uexp x - s) / 2 ^ (s - uexp x))"
    by (simp add: N_def M_def)
  also have "\<dots> = real (mant x) * (2 ^ uexp x / 2 ^ s)" by (simp only: two_ratio)
  also have "\<dots> = real (umag x) / 2 ^ s" by (simp add: umag_mant)
  finally have v: "v = real (umag x) / 2 ^ s" by (simp only: v_def)
  have err: "\<bar>real D * 10 powi (E - int p) - v\<bar> \<le> v / (2 * 10 ^ p)"
    unfolding v_def using pos de by (rule sci_digits_error)
  define sg :: real where "sg = (if sign x then - 1 else 1)"
  have sg: "\<bar>sg\<bar> = 1" by (simp add: sg_def)
  have tv: "text_value x = sg * (real D * 10 powi (E - int p))"
    by (simp add: text_value_def dec sg_def p_def)
  have vx: "valof x = sg * v"
    by (simp only: valof_sign [of x] v sg_def s_def)
  have av: "\<bar>valof x\<bar> = v"
    by (simp only: abs_valof [of x] v s_def)
  have "text_value x - valof x = sg * (real D * 10 powi (E - int p) - v)"
    by (simp only: tv vx right_diff_distrib)
  then have "\<bar>text_value x - valof x\<bar> = \<bar>real D * 10 powi (E - int p) - v\<bar>"
    by (simp only: abs_mult sg mult_1)
  with err show ?thesis by (simp only: av p_def)
qed

lemma valof_gap:
  fixes x y :: "'a::len word"
  assumes "valof y \<noteq> valof x"
  shows "\<bar>valof x\<bar> \<le> 2 ^ (fbits TYPE('a) + 1) * \<bar>valof y - valof x\<bar>"
proof -
  define S :: real where "S = 2 ^ (bias TYPE('a) + fbits TYPE('a) - 1)"
  have S: "0 < S" by (simp add: S_def)
  have ne: "units y \<noteq> units x" using assms by (auto simp: valof_def)
  have "real_of_int \<bar>units x\<bar> \<le> real_of_int (2 ^ (fbits TYPE('a) + 1) * \<bar>units y - units x\<bar>)"
    using units_gap [OF ne] by (simp only: of_int_le_iff)
  then have "\<bar>real_of_int (units x)\<bar> \<le> 2 ^ (fbits TYPE('a) + 1) * \<bar>real_of_int (units y) - real_of_int (units x)\<bar>"
    by simp
  then have "\<bar>real_of_int (units x)\<bar> / S
      \<le> 2 ^ (fbits TYPE('a) + 1) * \<bar>real_of_int (units y) - real_of_int (units x)\<bar> / S"
    using S by (simp only: divide_right_mono less_imp_le)
  moreover have "\<bar>valof x\<bar> = \<bar>real_of_int (units x)\<bar> / S"
    using S by (simp add: valof_def S_def)
  moreover have "\<bar>valof y - valof x\<bar> = \<bar>real_of_int (units y) - real_of_int (units x)\<bar> / S"
    using S by (simp add: valof_def S_def diff_divide_distrib [symmetric])
  ultimately show ?thesis by simp
qed

lemma nearest_gen:
  fixes x y :: "'a::len word"
  assumes digits: "(2::nat) ^ (fbits TYPE('a) + 1) < 10 ^ (max_digits10 TYPE('a) - 1)"
    and ne: "valof y \<noteq> valof x"
  shows "\<bar>text_value x - valof x\<bar> < \<bar>text_value x - valof y\<bar>"
proof -
  define P :: real where "P = 10 ^ (max_digits10 TYPE('a) - 1)"
  define Q :: real where "Q = 2 ^ (fbits TYPE('a) + 1)"
  define g where "g = \<bar>valof y - valof x\<bar>"
  define t where "t = \<bar>text_value x - valof x\<bar>"
  have P: "0 < P" by (simp add: P_def)
  have "real (2 ^ (fbits TYPE('a) + 1)) < real (10 ^ (max_digits10 TYPE('a) - 1))"
    using digits by (simp only: of_nat_less_iff)
  then have QP: "Q < P" by (simp add: P_def Q_def)
  have g: "0 < g" using ne by (simp add: g_def)
  have 1: "t \<le> \<bar>valof x\<bar> / (2 * P)" unfolding t_def P_def by (rule text_error)
  have 2: "\<bar>valof x\<bar> \<le> Q * g" unfolding Q_def g_def by (rule valof_gap [OF ne])
  have "Q * g < P * g" using QP g by simp
  with 2 have "\<bar>valof x\<bar> < P * g" by simp
  then have "\<bar>valof x\<bar> / (2 * P) < P * g / (2 * P)"
    using P by (intro divide_strict_right_mono) simp_all
  also have "P * g / (2 * P) = g / 2" using P by simp
  finally have "\<bar>valof x\<bar> / (2 * P) < g / 2" .
  with 1 have 3: "t < g / 2" by simp
  have "g \<le> \<bar>text_value x - valof y\<bar> + t"
    unfolding g_def t_def by linarith
  with 3 show ?thesis unfolding t_def by linarith
qed

lemma text_nearest_float:
  fixes x y :: float
  shows "valof y \<noteq> valof x \<Longrightarrow> \<bar>text_value x - valof x\<bar> < \<bar>text_value x - valof y\<bar>"
  by (rule nearest_gen) (simp_all add: fbits_def max_digits10_def)

lemma text_nearest_double:
  fixes x y :: double
  shows "valof y \<noteq> valof x \<Longrightarrow> \<bar>text_value x - valof x\<bar> < \<bar>text_value x - valof y\<bar>"
  by (rule nearest_gen) (simp_all add: fbits_def max_digits10_def)

section \<open>Reading the rendered text\<close>

lemma digit_cases: "d < 10 \<Longrightarrow> d \<in> {0, 1, 2, 3, 4, 5, 6, 7, 8, 9 :: nat}"
  by auto

lemma digit_val_digit: "d < 10 \<Longrightarrow> digit_val (digit d) = d"
  using digit_cases [of d] by (auto simp: digit_def digit_val_def)

lemma is_digit_digit: "d < 10 \<Longrightarrow> is_digit (digit d)"
  using digit_cases [of d] by (auto simp: digit_def is_digit_def)

lemma read_nat_snoc: "read_nat (xs @ [c]) = 10 * read_nat xs + digit_val c"
  by (simp add: read_nat_def)

lemma read_nat_show_nat: "read_nat (show_nat n) = n"
proof (induction n rule: show_nat.induct)
  case (1 n)
  show ?case
  proof (cases "n < 10")
    case True
    then show ?thesis
      by (subst show_nat.simps) (simp add: read_nat_def digit_val_digit)
  next
    case False
    then have "read_nat (show_nat (n div 10)) = n div 10" by (rule "1.IH")
    then show ?thesis
      using False by (subst show_nat.simps) (simp add: read_nat_snoc digit_val_digit)
  qed
qed

lemma digits_show_nat: "c \<in> set (show_nat n) \<Longrightarrow> is_digit c"
proof (induction n rule: show_nat.induct)
  case (1 n)
  show ?case
  proof (cases "n < 10")
    case True
    then show ?thesis
      using "1.prems" by (subst (asm) show_nat.simps) (simp add: is_digit_digit)
  next
    case False
    then show ?thesis
      using "1.prems" "1.IH" by (subst (asm) show_nat.simps) (auto simp: is_digit_digit)
  qed
qed

lemma length_show_nat: "n < 10 ^ k \<Longrightarrow> 0 < k \<Longrightarrow> length (show_nat n) \<le> k"
proof (induction n arbitrary: k rule: show_nat.induct)
  case (1 n)
  show ?case
  proof (cases "n < 10")
    case True
    then show ?thesis using "1.prems" by (subst show_nat.simps) simp
  next
    case False
    obtain j where j: "k = Suc j" using "1.prems" by (cases k) simp_all
    have "n div 10 < 10 ^ j" using "1.prems" by (simp add: j less_mult_imp_div_less mult.commute)
    moreover have "0 < j" using False "1.prems" by (cases j) (simp_all add: j)
    ultimately have "length (show_nat (n div 10)) \<le> j" using False by (intro "1.IH")
    then show ?thesis using False by (subst show_nat.simps) (simp add: j)
  qed
qed

lemma show_nat_nonempty: "show_nat n \<noteq> []"
  by (subst show_nat.simps) simp

lemma read_nat_zeros: "read_nat (replicate k CHR ''0'' @ s) = read_nat s"
proof -
  have "foldl (\<lambda>n c. 10 * n + digit_val c) 0 (replicate k CHR ''0'') = 0"
    by (induction k) (simp_all add: digit_val_def)
  then show ?thesis by (simp add: read_nat_def)
qed

lemma read_int_exponent:
  "read_int ((if E < 0 then ''-'' else ''+'') @ (if \<bar>E\<bar> < 10 then ''0'' else '''')
      @ show_nat (nat \<bar>E\<bar>)) = E"
proof -
  have "read_nat ((if \<bar>E\<bar> < 10 then ''0'' else '''') @ show_nat (nat \<bar>E\<bar>)) = nat \<bar>E\<bar>"
    using read_nat_zeros [of 1 "show_nat (nat \<bar>E\<bar>)"] by (simp add: read_nat_show_nat)
  then show ?thesis by (simp add: read_int_def)
qed

lemma read_sci_parts:
  assumes d0: "is_digit d0" and rest: "\<forall>c \<in> set rest. is_digit c"
  shows "read_sci ((if s then ''-'' else '''') @ [d0] @ ''.'' @ rest @ ''e'' @ ex)
       = (if s then - 1 else 1) * real (read_nat (d0 # rest)) * 10 powi (read_int ex - int (length rest))"
proof -
  define body where "body = d0 # CHR ''.'' # rest @ CHR ''e'' # ex"
  have t: "(if s then ''-'' else '''') @ [d0] @ ''.'' @ rest @ ''e'' @ ex
      = (if s then CHR ''-'' # body else body)"
    by (simp add: body_def)
  have neg: "take 1 (if s then CHR ''-'' # body else body) = ''-'' \<longleftrightarrow> s"
    using d0 by (auto simp: body_def is_digit_def)
  have b: "(if s then drop 1 (if s then CHR ''-'' # body else body)
            else (if s then CHR ''-'' # body else body)) = body"
    by simp
  have ne: "\<forall>c \<in> set (d0 # CHR ''.'' # rest). c \<noteq> CHR ''e''"
    using d0 rest by (auto simp: is_digit_def)
  have body2: "body = (d0 # CHR ''.'' # rest) @ CHR ''e'' # ex" by (simp add: body_def)
  have m: "takeWhile (\<lambda>c. c \<noteq> CHR ''e'') body = d0 # CHR ''.'' # rest"
    unfolding body2 using ne by (subst takeWhile_append2) auto
  have x: "drop 1 (dropWhile (\<lambda>c. c \<noteq> CHR ''e'') body) = ex"
    unfolding body2 using ne by (subst dropWhile_append2) auto
  have ip: "takeWhile (\<lambda>c. c \<noteq> CHR ''.'') (d0 # CHR ''.'' # rest) = [d0]"
    using d0 by (simp add: is_digit_def)
  have fp: "drop 1 (dropWhile (\<lambda>c. c \<noteq> CHR ''.'') (d0 # CHR ''.'' # rest)) = rest"
    using d0 by (simp add: is_digit_def)
  show ?thesis
    unfolding t read_sci_def Let_def neg b m x ip fp by simp
qed

lemma read_sci_text:
  assumes "D < 10 ^ (p + 1)"
  shows "read_sci (sci_text p s D E) = (if s then - 1 else 1) * real D * 10 powi (E - int p)"
proof -
  define ds where "ds = replicate (p + 1 - length (show_nat D)) CHR ''0'' @ show_nat D"
  define ex where "ex = (if E < 0 then ''-'' else ''+'') @ (if \<bar>E\<bar> < 10 then ''0'' else '''')
      @ show_nat (nat \<bar>E\<bar>)"
  have "length (show_nat D) \<le> p + 1" using assms by (intro length_show_nat) simp_all
  then have len: "length ds = p + 1" by (simp add: ds_def)
  have dig: "\<forall>c \<in> set ds. is_digit c"
    by (auto simp: ds_def digits_show_nat) (simp add: is_digit_def)
  have val: "read_nat ds = D" by (simp add: ds_def read_nat_zeros read_nat_show_nat)
  obtain d0 rest where ds: "ds = d0 # rest" using len by (cases ds) simp_all
  have rl: "length rest = p" using len by (simp add: ds)
  have st: "sci_text p s D E = (if s then ''-'' else '''') @ [d0] @ ''.'' @ rest @ ''e'' @ ex"
    unfolding sci_text_def Let_def ds_def [symmetric] ex_def [symmetric] by (simp add: ds)
  have "read_sci (sci_text p s D E)
      = (if s then - 1 else 1) * real (read_nat (d0 # rest)) * 10 powi (read_int ex - int (length rest))"
    unfolding st using dig by (intro read_sci_parts) (simp_all add: ds)
  then show ?thesis
    by (simp only: ds [symmetric] val rl ex_def read_int_exponent)
qed

lemma write_num_finite:
  "isfinite x \<Longrightarrow> write_num x
     = sci_text (max_digits10 TYPE('a) - 1) (sign x) (fst (decimal_of x)) (snd (decimal_of x))"
  for x :: "'a::len word"
  by (simp add: write_num_def finite_not_nan isfinite_def isinf_def)

lemma read_write_num:
  fixes x :: "'a::len word"
  assumes "isfinite x"
  shows "read_sci (write_num x) = text_value x"
  by (simp only: write_num_finite [OF assms] read_sci_text [OF decimal_of_bound] text_value_def)

section \<open>The description of the scenario values\<close>

lemma pinf_64: "(pinf :: double) = 0x7FF0000000000000"
  by (simp add: pinf_def infm_64 pack_def)

lemma ninf_64: "fneg (pinf :: double) = 0xFFF0000000000000"
  by (simp add: pinf_64 fneg_def pack_def sign_def mag_def)

lemma pinf_32: "(pinf :: float) = 0x7F800000"
  by (simp add: pinf_def infm_32 pack_def)

lemma ninf_32: "fneg (pinf :: float) = 0xFF800000"
  by (simp add: pinf_32 fneg_def pack_def sign_def mag_def)

lemma step_1: "step x d 1 = nextafter x d"
  by (simp add: step_funpow)

lemma ex_step_d:
  "step one (fneg pinf) 1 = 0x3FEFFFFFFFFFFFFF"
  "step one pinf 1 = 0x3FF0000000000001"
  unfolding step_1 ninf_64 unfolding pinf_64 one_def
  by (simp add: nextafter_def eval_cmp; simp add: pack_def)+

lemma ex_step_f:
  "step (0x3F800000 :: float) (fneg pinf) 1 = 0x3F7FFFFF"
  "step (0x3F800000 :: float) pinf 1 = 0x3F800001"
  unfolding step_1 ninf_32 unfolding pinf_32
  by (simp add: nextafter_def eval_cmp; simp add: pack_def)+

lemmas eval_dec = decimal_of_def max_digits10_def bias_def emax_def fbits_def decode
lemmas eval_sci = sci_digits_def dexp_def dexp_up.simps dexp_down.simps round_div_def Let_def
lemmas eval_text = write_num_def isnan_def isinf_def sci_text_def show_nat.simps digit_def Let_def
  max_digits10_def decode emax_def fbits_def

lemma ex_dec_d:
  "decimal_of one = (10000000000000000, 0)"
  "decimal_of (0x3FEFFFFFFFFFFFFF :: double) = (99999999999999989, - 1)"
  "decimal_of (0x3FF0000000000001 :: double) = (10000000000000002, 0)"
  unfolding one_def
  by (simp add: eval_dec; simp add: eval_sci)+

lemma ex_dec_f:
  "decimal_of (0x3F800000 :: float) = (100000000, 0)"
  "decimal_of (0x3F7FFFFF :: float) = (999999940, - 1)"
  "decimal_of (0x3F800001 :: float) = (100000012, 0)"
  by (simp add: eval_dec; simp add: eval_sci)+

lemma ex_text_d:
  "write_num one = ''1.0000000000000000e+00''"
  "write_num (0x3FEFFFFFFFFFFFFF :: double) = ''9.9999999999999989e-01''"
  "write_num (0x3FF0000000000001 :: double) = ''1.0000000000000002e+00''"
  by (simp_all add: eval_text ex_dec_d) (simp_all add: one_def)

lemma ex_text_f:
  "write_num (0x3F800000 :: float) = ''1.00000000e+00''"
  "write_num (0x3F7FFFFF :: float) = ''9.99999940e-01''"
  "write_num (0x3F800001 :: float) = ''1.00000012e+00''"
  by (simp_all add: eval_text ex_dec_f)

lemma step_2: "step x d 2 = nextafter (nextafter x d) d"
proof -
  have "unat (2 :: 64 word) = Suc (Suc 0)" by simp
  then show ?thesis by (simp only: step_funpow funpow.simps o_apply id_apply)
qed

lemma ex_step_sat: "step (0x7FEFFFFFFFFFFFFF :: double) pinf 2 = 0x7FF0000000000000"
  unfolding step_2 pinf_64
  by (simp add: nextafter_def eval_cmp; simp add: pack_def)+

lemma ex_text_inf: "write_num (0x7FF0000000000000 :: double) = ''inf''"
  by (simp add: eval_text)

lemma ex_to_float: "to_float one = 0x3F800000"
  unfolding one_def
  by (simp add: eval_arith; simp add: eval_round; simp add: pack_def)+

lemma ex_show: "show_nat 1 = ''1''" "show_nat (Suc 0) = ''1''"
  by (simp_all add: show_nat.simps digit_def)

section \<open>Properties of the ULP distance\<close>

lemma isfinite_32: "isfinite (x :: float) \<longleftrightarrow> mag x < 0x7F800000"
  by (simp add: isfinite_iff infm_def emax_def fbits_def)

lemma isfinite_64: "isfinite (x :: double) \<longleftrightarrow> mag x < 0x7FF0000000000000"
  by (simp add: isfinite_iff infm_64)

lemma key_bound_32: "\<bar>key (x :: float)\<bar> < 2 ^ 31"
  using mag_less [of x] by (simp add: key_def)

lemma ulpDistance_float:
  fixes a b :: float
  assumes "isfinite a" "isfinite b"
  shows "ulpDistance a b = Inr (key b - key a)"
  using key_bound_32 [of a] key_bound_32 [of b]
  by (simp add: ulpDistance_exact assms exact_dist_def)

lemma ulpDistance_double:
  fixes a b :: double
  assumes "isfinite a" "isfinite b"
  shows "ulpDistance a b = exact_dist (key b - key a)"
  by (simp add: ulpDistance_exact assms)

lemma feq_finite_key: "isfinite a \<Longrightarrow> isfinite b \<Longrightarrow> feq a b \<longleftrightarrow> key a = key b"
  by (simp add: feq_iff finite_not_nan)

lemma isfinite_neg_zero: "wf_format TYPE('a) \<Longrightarrow> isfinite (fneg (0 :: 'a::len word))"
  by (simp add: isfinite_fneg isfinite_0)

text \<open>
  C3. For every finite \<open>a\<close> of either width \<open>ulpDistance a a\<close> is 0, and more generally the
  distance of two finite values that compare equal is 0; in particular the distance
  between \<open>-0.0\<close> and \<open>+0.0\<close> is 0 in both directions, although they are different
  patterns one \<^verbatim>\<open>nextafter\<close> step apart.
\<close>

theorem ulpDistance_equal_zero:
  fixes a b :: float and c d :: double
  shows "(isfinite a \<longrightarrow> ulpDistance a a = Inr 0)
       \<and> (isfinite c \<longrightarrow> ulpDistance c c = Inr 0)
       \<and> (isfinite a \<and> isfinite b \<and> feq a b \<longrightarrow> ulpDistance a b = Inr 0)
       \<and> (isfinite c \<and> isfinite d \<and> feq c d \<longrightarrow> ulpDistance c d = Inr 0)
       \<and> ulpDistance (fneg 0) (0 :: float) = Inr 0 \<and> ulpDistance 0 (fneg 0 :: float) = Inr 0
       \<and> ulpDistance (fneg 0) (0 :: double) = Inr 0 \<and> ulpDistance 0 (fneg 0 :: double) = Inr 0
       \<and> fneg 0 \<noteq> (0 :: float) \<and> fneg 0 \<noteq> (0 :: double)"
proof -
  have z32: "isfinite (0 :: float)" "isfinite (fneg 0 :: float)"
    by (simp_all add: isfinite_0 isfinite_neg_zero wf_format_32)
  have z64: "isfinite (0 :: double)" "isfinite (fneg 0 :: double)"
    by (simp_all add: isfinite_0 isfinite_neg_zero wf_format_64)
  have 1: "isfinite a \<longrightarrow> ulpDistance a a = Inr 0"
    by (simp add: ulpDistance_float)
  have 2: "isfinite c \<longrightarrow> ulpDistance c c = Inr 0"
    by (simp add: ulpDistance_double exact_dist_def)
  have 3: "isfinite a \<and> isfinite b \<and> feq a b \<longrightarrow> ulpDistance a b = Inr 0"
    by (auto simp: ulpDistance_float feq_iff)
  have 4: "isfinite c \<and> isfinite d \<and> feq c d \<longrightarrow> ulpDistance c d = Inr 0"
    by (auto simp: ulpDistance_double exact_dist_def feq_iff)
  have 5: "ulpDistance (fneg 0) (0 :: float) = Inr 0" "ulpDistance 0 (fneg 0 :: float) = Inr 0"
    using z32 by (simp_all add: ulpDistance_float key_fneg key_0)
  have 6: "ulpDistance (fneg 0) (0 :: double) = Inr 0" "ulpDistance 0 (fneg 0 :: double) = Inr 0"
    using z64 by (simp_all add: ulpDistance_double exact_dist_def key_fneg key_0)
  have 7: "fneg 0 \<noteq> (0 :: float)" "fneg 0 \<noteq> (0 :: double)"
    by (simp_all add: word_eq_sign_mag sign_fneg sign_0)
  from 1 2 3 4 5 6 7 show ?thesis by blast
qed

theorem ulpDistance_equal_zero_witness:
  "isfinite (0x3F800000 :: float) \<and> ulpDistance (0x3F800000 :: float) 0x3F800000 = Inr 0
   \<and> isfinite (0x3FF0000000000000 :: double)
   \<and> ulpDistance (0x3FF0000000000000 :: double) 0x3FF0000000000000 = Inr 0
   \<and> isfinite (0x80000000 :: float) \<and> isfinite (0 :: float) \<and> feq (0x80000000 :: float) 0
   \<and> ulpDistance (0x80000000 :: float) 0 = Inr 0
   \<and> isfinite (0x8000000000000000 :: double) \<and> isfinite (0 :: double)
   \<and> feq (0x8000000000000000 :: double) 0
   \<and> ulpDistance (0x8000000000000000 :: double) 0 = Inr 0"
proof -
  have f: "isfinite (0x3F800000 :: float)" "isfinite (0x80000000 :: float)" "isfinite (0 :: float)"
    by (simp_all add: isfinite_32 mag_def)
  have d: "isfinite (0x3FF0000000000000 :: double)" "isfinite (0x8000000000000000 :: double)"
    "isfinite (0 :: double)"
    by (simp_all add: isfinite_64 mag_def)
  have e: "feq (0x80000000 :: float) 0" "feq (0x8000000000000000 :: double) 0"
    using f d by (simp_all add: feq_finite_key) (simp_all add: key_def mag_def sign_def)
  show ?thesis
    using f d e
      ulpDistance_equal_zero [of "0x3F800000" "0x3FF0000000000000" "0x3F800000" "0x3FF0000000000000"]
      ulpDistance_equal_zero [of "0x80000000" "0x8000000000000000" 0 0]
    by simp
qed

lemma ulpDistance_swap_float:
  fixes a b :: float
  assumes "isfinite a" "isfinite b"
  shows "\<exists>k. ulpDistance a b = Inr k \<and> ulpDistance b a = Inr (- k)"
  using assms by (simp add: ulpDistance_float)

lemma ulpDistance_swap_double:
  fixes a b :: double
  assumes "isfinite a" "isfinite b" "\<bar>key b - key a\<bar> < 2 ^ 63"
  shows "\<exists>k. ulpDistance a b = Inr k \<and> ulpDistance b a = Inr (- k)"
proof -
  have "\<bar>key a - key b\<bar> = \<bar>key b - key a\<bar>" by simp
  then show ?thesis
    using assms by (simp add: ulpDistance_double exact_dist_def)
qed

text \<open>
  C2. Antisymmetry fails for \<^verbatim>\<open>double\<close>: \<open>-2.0\<close> and \<open>2.0\<close> are finite, and neither
  \<open>ulpDistance (-2.0) 2.0\<close> nor \<open>ulpDistance 2.0 (-2.0)\<close> returns a value, because the
  sign-crossing sum \<open>2 ^ 63\<close> overflows \<^verbatim>\<open>int64_t\<close>; so there is no distance in one direction
  to be the negation of the distance in the other. (Antisymmetry does hold for every pair of
  finite \<^verbatim>\<open>float\<close>s, and for every pair of finite \<^verbatim>\<open>double\<close>s whose keys are less than
  \<open>2 ^ 63\<close> apart: lemmas \<open>ulpDistance_swap_float\<close> and \<open>ulpDistance_swap_double\<close>.)
\<close>

theorem ulpDistance_antisymmetry_overflow:
  "isfinite (0xC000000000000000 :: double) \<and> isfinite (0x4000000000000000 :: double)
   \<and> ulpDistance (0xC000000000000000 :: double) 0x4000000000000000 = Inl SignedOverflow
   \<and> ulpDistance (0x4000000000000000 :: double) 0xC000000000000000 = Inl SignedOverflow"
proof -
  have d: "isfinite (0xC000000000000000 :: double)" "isfinite (0x4000000000000000 :: double)"
    by (simp_all add: isfinite_64 mag_def)
  have k: "key (0x4000000000000000 :: double) = 2 ^ 62" "key (0xC000000000000000 :: double) = - (2 ^ 62)"
    by (simp_all add: key_def mag_def sign_def)
  show ?thesis
    using d by (simp add: ulpDistance_double exact_dist_def k)
qed

text \<open>
  C7. The 64-bit arithmetic of \<open>ulpDistance\<close> is safe for \<^verbatim>\<open>float\<close>: every call on finite
  values returns the exact distance, the difference of the keys. It is not safe for
  \<^verbatim>\<open>double\<close>: a call on finite values returns the exact distance when that is below
  \<open>2 ^ 63\<close> in absolute value and overflows otherwise, and the sign-crossing sum for
  \<open>-2.0\<close> and \<open>2.0\<close> is exactly \<open>2 ^ 63\<close>.
\<close>

theorem ulpDistance_overflow:
  "isfinite (0xC000000000000000 :: double) \<and> isfinite (0x4000000000000000 :: double)
   \<and> ulpDistance (0xC000000000000000 :: double) 0x4000000000000000 = Inl SignedOverflow
   \<and> key (0x4000000000000000 :: double) - key (0xC000000000000000 :: double) = 2 ^ 63"
proof -
  have d: "isfinite (0xC000000000000000 :: double)" "isfinite (0x4000000000000000 :: double)"
    by (simp_all add: isfinite_64 mag_def)
  have k: "key (0x4000000000000000 :: double) - key (0xC000000000000000 :: double) = 2 ^ 63"
    by (simp add: key_def mag_def sign_def)
  show ?thesis
    using d k by (simp add: ulpDistance_double exact_dist_def)
qed

section \<open>The arithmetic of the scenarios\<close>

lemma literals:
  "nearest_double 5 100 d_0_05" "nearest_double 1 10 d_0_1" "nearest_double 10 1 d_10"
  "nearest_double 1004 100 d_10_04" "nearest_double 1006 100 d_10_06"
  "nearest_double 100 1 d_100" "nearest_double 105 1 d_105" "nearest_double 115 1 d_115"
  "nearest_double 1 1 one"
  by (simp_all add: nearest_double_def one_def decode)

lemma arith_abs:
  "fadd d_inf one = d_inf"
  "fadd d_10_04 d_0_05 = 0x40242E147AE147AE"
  "fadd d_10_06 d_0_05 = 0x40243851EB851EB9"
  "fadd d_10 d_0_05 = 0x402419999999999A"
  by (simp add: eval_arith one_def; simp add: eval_round; simp add: pack_def)+

lemma arith_rel:
  "fmul d_0_1 d_105 = 0x4025000000000000"
  "fmul d_0_1 d_115 = 0x4027000000000000"
  "fadd d_105 0x4025000000000000 = 0x405CE00000000000"
  "fadd d_100 0x4025000000000000 = 0x405BA00000000000"
  "fadd d_115 0x4027000000000000 = 0x405FA00000000000"
  "fadd d_100 0x4027000000000000 = 0x405BE00000000000"
  by (simp add: eval_arith; simp add: eval_round; simp add: pack_def)+

lemma narrow_2p128: "to_float d_2p128 = 0x7F800000" "to_float d_inf = 0x7F800000"
  by (simp add: eval_arith; (simp add: eval_round)?; simp add: pack_def infm_def emax_def fbits_def)+


lemma cmp_abs:
  "fge d_inf d_inf" "fge 0x40242E147AE147AE d_10" "fge 0x402419999999999A d_10_04"
  "fge 0x40243851EB851EB9 d_10" "\<not> fge 0x402419999999999A d_10_06"
  "fge d_0_05 0" "fge one 0"
  by (simp_all add: eval_cmp one_def)

lemma cmp_rel:
  "fge d_0_1 0" "flt d_0_1 one" "fabs d_105 = d_105" "fabs d_100 = d_100" "fabs d_115 = d_115"
  "\<not> flt d_105 d_100" "\<not> flt d_115 d_100"
  "\<not> isinf (0x4025000000000000 :: double)" "\<not> isinf (0x4027000000000000 :: double)"
  "fge 0x405CE00000000000 d_100" "fge 0x405BA00000000000 d_105"
  "fge 0x405FA00000000000 d_100" "\<not> fge 0x405BE00000000000 d_115"
  by (simp_all add: eval_cmp one_def fabs_def pack_def)

lemma marginComparison_zero: "marginComparison c t 0 \<longleftrightarrow> feq c t"
proof (cases "isnan c \<or> isnan t")
  case True
  then show ?thesis
    using isnan_fadd [of c 0] isnan_fadd [of t 0]
    by (auto simp: marginComparison_def fge_iff feq_iff)
next
  case False
  then show ?thesis
    using fadd_zero_64 [of c] fadd_zero_64 [of t]
    by (auto simp: marginComparison_def fge_iff feq_iff)
qed

lemma arith_rel_inf:
  "fabs d_inf = d_inf" "\<not> flt d_inf d_inf" "fmul d_0_1 d_inf = d_inf" "isinf d_inf" "feq d_inf d_inf"
  by (simp_all add: eval_cmp fabs_def fmul_def infm_def pack_def)

lemma isnan_fabs: "isnan (fabs x) = isnan x"
  by (simp add: isnan_def expo_def fraction_def mag_fabs)

lemma key_fabs: "key (fabs x) = int (mag x)"
  by (simp add: key_def sign_fabs mag_fabs)

lemma fmax_fabs_commute:
  assumes "\<not> isnan x" "\<not> isnan y"
  shows "fmax (fabs x) (fabs y) = fmax (fabs y) (fabs x)"
proof -
  have "fabs x = fabs y" if "mag x = mag y"
    using that by (simp add: word_eq_sign_mag sign_fabs mag_fabs)
  then show ?thesis
    using assms by (auto simp: fmax_def flt_iff isnan_fabs key_fabs)
qed

lemma cmp_ctor:
  "isnan d_nan" "\<not> flt d_nan 0" "\<not> fge d_nan 0" "\<not> fge d_nan one"
  "fge one one" "\<not> flt one 0" "flt (fneg d_0_1) 0"
  "fge (0 :: double) 0" "flt 0 one" "fge one 0" "\<not> flt one one" "\<not> fge (fneg d_0_1) 0"
  by (simp_all add: eval_cmp one_def fneg_def pack_def)

section \<open>Properties of the matchers\<close>

text \<open>
  C1, as the code has it. \<^verbatim>\<open>WithinUlpsMatcher::match\<close> compares, for the width \<^verbatim>\<open>Double\<close>,
  the candidate and the target as they are, and for the width \<^verbatim>\<open>Float\<close> the two values
  after each has been narrowed to \<^verbatim>\<open>float\<close> (narrowing keeps and creates no NaN). It
  returns false when either value is a NaN, whatever the tolerance. Else, when either of the
  compared values is not finite, it returns true exactly when the two are the identical
  value. Else both compared values are finite: for \<^verbatim>\<open>Float\<close> always, and for \<^verbatim>\<open>Double\<close> when
  the two values are less than \<open>2 ^ 63\<close> steps apart, \<open>ulpDistance\<close> returns their distance
  \<open>d\<close> (the difference of the keys) and the match returns true exactly when \<open>\<bar>d\<bar>\<close> is at
  most \<open>ulps\<close>. (Finite \<^verbatim>\<open>double\<close>s \<open>2 ^ 63\<close> or more steps apart are left out: there the
  distance overflows.) The counterexample shows that for \<^verbatim>\<open>Float\<close> the case distinction is
  not the one of the \<^verbatim>\<open>double\<close>s passed in: the finite \<^verbatim>\<open>double\<close> \<open>2 ^ 128\<close> narrows to
  \<open>+\<infinity>\<close> and matches the target \<open>+\<infinity>\<close> with 0 ULPs.
\<close>

theorem WithinUlps_match:
  fixes c t :: double
  shows
  "(isnan c \<or> isnan t \<longrightarrow>
      WithinUlpsMatcher_match \<lparr>m_target = t, m_ulps = u, m_type = Double\<rparr> c = Inr False \<and> WithinUlpsMatcher_match \<lparr>m_target = t, m_ulps = u, m_type = Float\<rparr> c = Inr False)
   \<and> (isnan (to_float c) \<longleftrightarrow> isnan c) \<and> (isnan (to_float t) \<longleftrightarrow> isnan t)
   \<and> (\<not> isnan c \<and> \<not> isnan t \<and> (\<not> isfinite c \<or> \<not> isfinite t) \<longrightarrow>
      WithinUlpsMatcher_match \<lparr>m_target = t, m_ulps = u, m_type = Double\<rparr> c = Inr (c = t))
   \<and> (isfinite c \<and> isfinite t \<and> \<bar>key t - key c\<bar> < 2 ^ 63 \<longrightarrow>
      ulpDistance c t = Inr (key t - key c)
      \<and> WithinUlpsMatcher_match \<lparr>m_target = t, m_ulps = u, m_type = Double\<rparr> c = Inr (\<bar>key t - key c\<bar> \<le> uint u))
   \<and> (\<not> isnan c \<and> \<not> isnan t \<and> (\<not> isfinite (to_float c) \<or> \<not> isfinite (to_float t)) \<longrightarrow>
      WithinUlpsMatcher_match \<lparr>m_target = t, m_ulps = u, m_type = Float\<rparr> c = Inr (to_float c = to_float t))
   \<and> (isfinite (to_float c) \<and> isfinite (to_float t) \<longrightarrow>
      ulpDistance (to_float c) (to_float t) = Inr (key (to_float t) - key (to_float c))
      \<and> WithinUlpsMatcher_match \<lparr>m_target = t, m_ulps = u, m_type = Float\<rparr> c = Inr (\<bar>key (to_float t) - key (to_float c)\<bar> \<le> uint u))"
proof -
  have D: "WithinUlpsMatcher_match \<lparr>m_target = t, m_ulps = u, m_type = Double\<rparr> c = ulp_match_spec c t u"
    by (simp add: WithinUlpsMatcher_match_def almostEqualUlps_spec wf_format_64)
  have F: "WithinUlpsMatcher_match \<lparr>m_target = t, m_ulps = u, m_type = Float\<rparr> c = ulp_match_spec (to_float c) (to_float t) u"
    by (simp add: WithinUlpsMatcher_match_def almostEqualUlps_spec wf_format_32)
  have n: "isnan (to_float c) \<longleftrightarrow> isnan c" "isnan (to_float t) \<longleftrightarrow> isnan t"
    by (simp_all add: isnan_to_float)
  have 1: "isnan c \<or> isnan t \<longrightarrow> WithinUlpsMatcher_match \<lparr>m_target = t, m_ulps = u, m_type = Double\<rparr> c = Inr False \<and> WithinUlpsMatcher_match \<lparr>m_target = t, m_ulps = u, m_type = Float\<rparr> c = Inr False"
    by (auto simp: D F ulp_match_spec_def n)
  have 2: "\<not> isnan c \<and> \<not> isnan t \<and> (\<not> isfinite c \<or> \<not> isfinite t) \<longrightarrow> WithinUlpsMatcher_match \<lparr>m_target = t, m_ulps = u, m_type = Double\<rparr> c = Inr (c = t)"
    by (auto simp: D ulp_match_spec_def)
  have 3: "isfinite c \<and> isfinite t \<and> \<bar>key t - key c\<bar> < 2 ^ 63 \<longrightarrow>
      ulpDistance c t = Inr (key t - key c)
      \<and> WithinUlpsMatcher_match \<lparr>m_target = t, m_ulps = u, m_type = Double\<rparr> c = Inr (\<bar>key t - key c\<bar> \<le> uint u)"
    by (simp add: D ulp_match_spec_def finite_not_nan ulpDistance_double exact_dist_def
        and_then_def)
  have 4: "\<not> isnan c \<and> \<not> isnan t \<and> (\<not> isfinite (to_float c) \<or> \<not> isfinite (to_float t)) \<longrightarrow>
      WithinUlpsMatcher_match \<lparr>m_target = t, m_ulps = u, m_type = Float\<rparr> c = Inr (to_float c = to_float t)"
    by (auto simp: F ulp_match_spec_def n)
  have 5: "isfinite (to_float c) \<and> isfinite (to_float t) \<longrightarrow>
      ulpDistance (to_float c) (to_float t) = Inr (key (to_float t) - key (to_float c))
      \<and> WithinUlpsMatcher_match \<lparr>m_target = t, m_ulps = u, m_type = Float\<rparr> c = Inr (\<bar>key (to_float t) - key (to_float c)\<bar> \<le> uint u)"
    by (simp add: F ulp_match_spec_def finite_not_nan ulpDistance_float and_then_def)
  from 1 n 2 3 4 5 show ?thesis by blast
qed

theorem WithinUlps_match_witness:
  "isfinite one \<and> isfinite (0x3FF0000000000001 :: double)
   \<and> \<bar>key (0x3FF0000000000001 :: double) - key one\<bar> < 2 ^ 63
   \<and> ulpDistance one (0x3FF0000000000001 :: double) = Inr 1
   \<and> WithinUlpsMatcher_match \<lparr>m_target = 0x3FF0000000000001, m_ulps = 1, m_type = Double\<rparr> one
       = Inr True
   \<and> isfinite (0x3FF0000000000002 :: double)
   \<and> \<bar>key (0x3FF0000000000002 :: double) - key one\<bar> < 2 ^ 63
   \<and> ulpDistance one (0x3FF0000000000002 :: double) = Inr 2
   \<and> WithinUlpsMatcher_match \<lparr>m_target = 0x3FF0000000000002, m_ulps = 1, m_type = Double\<rparr> one
       = Inr False
   \<and> isnan d_nan
   \<and> WithinUlpsMatcher_match \<lparr>m_target = one, m_ulps = - 1, m_type = Double\<rparr> d_nan = Inr False
   \<and> WithinUlpsMatcher_match \<lparr>m_target = one, m_ulps = - 1, m_type = Float\<rparr> d_nan = Inr False
   \<and> \<not> isnan d_inf \<and> \<not> isnan one \<and> \<not> isfinite d_inf
   \<and> WithinUlpsMatcher_match \<lparr>m_target = d_inf, m_ulps = - 1, m_type = Double\<rparr> one = Inr False
   \<and> WithinUlpsMatcher_match \<lparr>m_target = d_inf, m_ulps = 0, m_type = Double\<rparr> d_inf = Inr True
   \<and> to_float one = 0x3F800000 \<and> to_float 0x3FF0000020000000 = 0x3F800001
   \<and> isfinite (0x3F800000 :: float) \<and> isfinite (0x3F800001 :: float)
   \<and> ulpDistance (0x3F800000 :: float) 0x3F800001 = Inr 1
   \<and> WithinUlpsMatcher_match \<lparr>m_target = 0x3FF0000020000000, m_ulps = 1, m_type = Float\<rparr> one
       = Inr True
   \<and> WithinUlpsMatcher_match \<lparr>m_target = 0x3FF0000020000000, m_ulps = 0, m_type = Float\<rparr> one
       = Inr False"
proof -
  have f: "isfinite one" "isfinite (0x3FF0000000000001 :: double)"
    "isfinite (0x3FF0000000000002 :: double)"
    by (simp_all add: isfinite_64 mag_def one_def)
  have k: "key one = 0x3FF0000000000000" "key (0x3FF0000000000001 :: double) = 0x3FF0000000000001"
    "key (0x3FF0000000000002 :: double) = 0x3FF0000000000002"
    by (simp_all add: key_def mag_def sign_def one_def)
  have n: "isnan d_nan" "\<not> isnan d_inf" "\<not> isnan one" "\<not> isfinite d_inf" "one \<noteq> d_inf"
    by (simp_all add: decode one_def)
  have t: "to_float one = 0x3F800000" "to_float 0x3FF0000020000000 = 0x3F800001"
    unfolding one_def
    by (simp add: eval_arith; simp add: eval_round; simp add: pack_def)+
  have g: "isfinite (0x3F800000 :: float)" "isfinite (0x3F800001 :: float)"
    by (simp_all add: isfinite_32 mag_def)
  have j: "key (0x3F800000 :: float) = 0x3F800000" "key (0x3F800001 :: float) = 0x3F800001"
    by (simp_all add: key_def mag_def sign_def)
  show ?thesis
    using f n g
      WithinUlps_match [where c = one and t = "0x3FF0000000000001" and u = 1]
      WithinUlps_match [where c = one and t = "0x3FF0000000000002" and u = 1]
      WithinUlps_match [where c = d_nan and t = one and u = "- 1"]
      WithinUlps_match [where c = one and t = d_inf and u = "- 1"]
      WithinUlps_match [where c = d_inf and t = d_inf and u = 0]
      WithinUlps_match [where c = one and t = "0x3FF0000020000000" and u = 1]
      WithinUlps_match [where c = one and t = "0x3FF0000020000000" and u = 0]
    by (simp add: k t j)
qed

theorem WithinUlps_narrowing_counterexample:
  "isfinite d_2p128 \<and> \<not> isnan d_inf \<and> \<not> isfinite d_inf \<and> d_2p128 \<noteq> d_inf
   \<and> ulp_match_spec d_2p128 d_inf 0 = Inr False
   \<and> WithinUlpsMatcher_match \<lparr>m_target = d_inf, m_ulps = 0, m_type = Float\<rparr> d_2p128 = Inr True"
proof -
  have d: "isfinite d_2p128" "\<not> isnan d_inf" "\<not> isfinite d_inf" "\<not> isnan d_2p128"
    by (simp_all add: decode)
  have f: "\<not> isnan (0x7F800000 :: float)" "\<not> isfinite (0x7F800000 :: float)"
    "feq (0x7F800000 :: float) 0x7F800000"
    by (simp_all add: eval_cmp)
  show ?thesis
    using d f
    by (simp add: ulp_match_spec_def WithinUlpsMatcher_match_def almostEqualUlps_def narrow_2p128)
qed

text \<open>
  C4. For a \<^verbatim>\<open>WithinRelMatcher\<close> that was constructed (so \<open>0 \<le> epsilon < 1\<close>), \<^verbatim>\<open>match\<close>
  forms the product of \<open>epsilon\<close> and \<open>max(|candidate|, |target|)\<close>, takes 0 in its place
  when it is infinite, and is true exactly when \<open>candidate + m \<ge> target\<close> and
  \<open>target + m \<ge> candidate\<close> for that margin \<open>m\<close>. When the product is infinite the verdict
  is that of \<open>candidate == target\<close>. With target 100.0 and epsilon 0.1 the candidate 105.0
  matches and 115.0 does not.
\<close>

theorem WithinRel_match:
  "(WithinRelMatcher_new target epsilon = Inr p \<longrightarrow>
      (let m = fmul epsilon (fmax (fabs c) (fabs target)); eff = (if isinf m then 0 else m)
       in (WithinRelMatcher_match p c \<longleftrightarrow>
             fge (fadd c eff) target \<and> fge (fadd target eff) c)
          \<and> (isinf m \<longrightarrow> (WithinRelMatcher_match p c \<longleftrightarrow> feq c target))))
   \<and> (\<exists>p. WithinRelMatcher_new d_100 d_0_1 = Inr p
          \<and> WithinRelMatcher_match p d_105 \<and> \<not> WithinRelMatcher_match p d_115)"
proof -
  have 1: "WithinRelMatcher_new target epsilon = Inr p \<longrightarrow>
      (let m = fmul epsilon (fmax (fabs c) (fabs target)); eff = (if isinf m then 0 else m)
       in (WithinRelMatcher_match p c \<longleftrightarrow>
             fge (fadd c eff) target \<and> fge (fadd target eff) c)
          \<and> (isinf m \<longrightarrow> (WithinRelMatcher_match p c \<longleftrightarrow> feq c target)))"
    using marginComparison_zero [of c target]
    by (auto simp: WithinRelMatcher_new_def WithinRelMatcher_match_def Let_def
        marginComparison_def split: if_splits)
  have 2: "\<exists>p. WithinRelMatcher_new d_100 d_0_1 = Inr p
          \<and> WithinRelMatcher_match p d_105 \<and> \<not> WithinRelMatcher_match p d_115"
    by (simp add: WithinRelMatcher_new_def WithinRelMatcher_match_def Let_def
        marginComparison_def fmax_def cmp_rel arith_rel)
  from 1 2 show ?thesis by blast
qed


theorem WithinRel_match_witness:
  "WithinRelMatcher_new d_inf d_0_1 = Inr \<lparr>m_target = d_inf, m_epsilon = d_0_1\<rparr>
   \<and> isinf (fmul d_0_1 (fmax (fabs d_inf) (fabs d_inf)))
   \<and> WithinRelMatcher_match \<lparr>m_target = d_inf, m_epsilon = d_0_1\<rparr> d_inf
   \<and> feq d_inf d_inf"
proof -
  have h: "WithinRelMatcher_new d_inf d_0_1 = Inr \<lparr>m_target = d_inf, m_epsilon = d_0_1\<rparr>"
    by (simp add: WithinRelMatcher_new_def cmp_rel)
  have i: "isinf (fmul d_0_1 (fmax (fabs d_inf) (fabs d_inf)))"
    by (simp add: fmax_def arith_rel_inf)
  have "WithinRelMatcher_new d_inf d_0_1 = Inr \<lparr>m_target = d_inf, m_epsilon = d_0_1\<rparr> \<longrightarrow>
      (isinf (fmul d_0_1 (fmax (fabs d_inf) (fabs d_inf))) \<longrightarrow>
        (WithinRelMatcher_match \<lparr>m_target = d_inf, m_epsilon = d_0_1\<rparr> d_inf \<longleftrightarrow> feq d_inf d_inf))"
    using WithinRel_match [of d_inf d_0_1 "\<lparr>m_target = d_inf, m_epsilon = d_0_1\<rparr>" d_inf]
    unfolding Let_def by blast
  with h i arith_rel_inf(5) show ?thesis by blast
qed

text \<open>
  C5. For a \<^verbatim>\<open>WithinAbsMatcher\<close> that was constructed (so \<open>margin \<ge> 0\<close>), \<^verbatim>\<open>match\<close> is true
  exactly when \<open>candidate + margin \<ge> target\<close> and \<open>target + margin \<ge> candidate\<close>. With
  target \<open>+\<infinity>\<close> and margin 1.0 the candidate \<open>+\<infinity>\<close> matches; with target 10.0 and margin
  0.05 the candidate 10.04 matches and 10.06 does not.
\<close>

theorem WithinAbs_match:
  "(WithinAbsMatcher_new target margin = Inr p \<longrightarrow>
      (WithinAbsMatcher_match p c \<longleftrightarrow>
         fge (fadd c margin) target \<and> fge (fadd target margin) c))
   \<and> (\<exists>p. WithinAbsMatcher_new d_inf one = Inr p \<and> WithinAbsMatcher_match p d_inf)
   \<and> (\<exists>p. WithinAbsMatcher_new d_10 d_0_05 = Inr p
          \<and> WithinAbsMatcher_match p d_10_04 \<and> \<not> WithinAbsMatcher_match p d_10_06)"
proof -
  have 1: "WithinAbsMatcher_new target margin = Inr p \<longrightarrow>
      (WithinAbsMatcher_match p c \<longleftrightarrow>
         fge (fadd c margin) target \<and> fge (fadd target margin) c)"
    by (auto simp: WithinAbsMatcher_new_def WithinAbsMatcher_match_def split: if_splits)
  have 2: "\<exists>p. WithinAbsMatcher_new d_inf one = Inr p \<and> WithinAbsMatcher_match p d_inf"
    by (simp add: WithinAbsMatcher_new_def WithinAbsMatcher_match_def arith_abs cmp_abs)
  have 3: "\<exists>p. WithinAbsMatcher_new d_10 d_0_05 = Inr p
          \<and> WithinAbsMatcher_match p d_10_04 \<and> \<not> WithinAbsMatcher_match p d_10_06"
    by (simp add: WithinAbsMatcher_new_def WithinAbsMatcher_match_def arith_abs cmp_abs)
  from 1 2 3 show ?thesis by blast
qed

theorem WithinAbs_match_witness:
  "WithinAbsMatcher_new d_10 d_0_05 = Inr \<lparr>m_target = d_10, m_margin = d_0_05\<rparr>
   \<and> (WithinAbsMatcher_match \<lparr>m_target = d_10, m_margin = d_0_05\<rparr> d_10_04 \<longleftrightarrow>
        fge (fadd d_10_04 d_0_05) d_10 \<and> fge (fadd d_10 d_0_05) d_10_04)"
proof -
  have h: "WithinAbsMatcher_new d_10 d_0_05 = Inr \<lparr>m_target = d_10, m_margin = d_0_05\<rparr>"
    by (simp add: WithinAbsMatcher_new_def cmp_abs)
  show ?thesis
    using h WithinAbs_match [of d_10 d_0_05 "\<lparr>m_target = d_10, m_margin = d_0_05\<rparr>" d_10_04]
    by blast
qed

text \<open>
  C6, as the code has it. Constructing a \<^verbatim>\<open>WithinAbsMatcher\<close> fails exactly when the margin is
  negative or a NaN; constructing a \<^verbatim>\<open>WithinRelMatcher\<close> fails exactly when epsilon is
  negative, at least 1 or a NaN (1.0 and -0.1 fail, 0.0 succeeds); constructing a
  \<^verbatim>\<open>WithinUlpsMatcher\<close> fails exactly when the width is \<^verbatim>\<open>Float\<close> and \<open>ulps\<close> exceeds
  \<open>2 ^ 32 - 1\<close>. A construction that succeeds returns the matcher that holds exactly the
  given parameters. The counterexample is the NaN: it is neither below 0 nor at least 1,
  and both constructions fail on it.
\<close>

theorem construction_validated:
  "(WithinAbsMatcher_new target margin = Inl Invalid_margin \<longleftrightarrow> flt margin 0 \<or> isnan margin)
   \<and> (WithinAbsMatcher_new target margin = Inr p \<longleftrightarrow>
        fge margin 0 \<and> p = \<lparr>m_target = target, m_margin = margin\<rparr>)
   \<and> ((\<exists>e. WithinRelMatcher_new target epsilon = Inl e) \<longleftrightarrow>
        flt epsilon 0 \<or> fge epsilon one \<or> isnan epsilon)
   \<and> (WithinRelMatcher_new target epsilon = Inr q \<longleftrightarrow>
        fge epsilon 0 \<and> flt epsilon one \<and> q = \<lparr>m_target = target, m_epsilon = epsilon\<rparr>)
   \<and> (WithinUlpsMatcher_new target ulps ty = Inl Ulp_impossibly_large \<longleftrightarrow>
        ty = Float \<and> 2 ^ 32 - 1 < unat ulps)
   \<and> (WithinUlpsMatcher_new target ulps ty = Inr r \<longleftrightarrow>
        (ty = Double \<or> unat ulps \<le> 2 ^ 32 - 1)
        \<and> r = \<lparr>m_target = target, m_ulps = ulps, m_type = ty\<rparr>)
   \<and> WithinRelMatcher_new target one = Inl Epsilon_not_less_than_1
   \<and> WithinRelMatcher_new target (fneg d_0_1) = Inl Epsilon_less_than_0
   \<and> WithinRelMatcher_new target 0 = Inr \<lparr>m_target = target, m_epsilon = 0\<rparr>"
proof -
  have u: "ulps \<le> 0xFFFFFFFF \<longleftrightarrow> unat ulps \<le> 2 ^ 32 - 1"
    by (simp add: word_le_nat_alt)
  have ty: "ty \<noteq> Double \<longleftrightarrow> ty = Float" by (cases ty) simp_all
  have c: "WithinRelMatcher_new target one = Inl Epsilon_not_less_than_1"
    "WithinRelMatcher_new target (fneg d_0_1) = Inl Epsilon_less_than_0"
    "WithinRelMatcher_new target 0 = Inr \<lparr>m_target = target, m_epsilon = 0\<rparr>"
    by (simp_all add: WithinRelMatcher_new_def cmp_ctor)
  show ?thesis
    unfolding c
    unfolding WithinAbsMatcher_new_def WithinRelMatcher_new_def WithinUlpsMatcher_new_def u
    using ty by (auto simp: not_fge_iff not_flt_iff not_isnan_0 one_facts fge_iff flt_iff not_le)
qed

theorem construction_validated_witness:
  "WithinAbsMatcher_new d_10 d_0_05 = Inr \<lparr>m_target = d_10, m_margin = d_0_05\<rparr>
   \<and> WithinAbsMatcher_new d_10 (fneg d_0_05) = Inl Invalid_margin
   \<and> WithinRelMatcher_new d_100 d_0_1 = Inr \<lparr>m_target = d_100, m_epsilon = d_0_1\<rparr>
   \<and> WithinUlpsMatcher_new one 0x100000000 Float = Inl Ulp_impossibly_large
   \<and> WithinUlpsMatcher_new one 0x100000000 Double
       = Inr \<lparr>m_target = one, m_ulps = 0x100000000, m_type = Double\<rparr>
   \<and> WithinUlpsMatcher_new one 0xFFFFFFFF Float
       = Inr \<lparr>m_target = one, m_ulps = 0xFFFFFFFF, m_type = Float\<rparr>"
proof -
  have n: "flt (fneg d_0_05) 0" by (simp add: eval_cmp fneg_def pack_def)
  show ?thesis
    using n cmp_abs(6) cmp_rel(1,2)
      construction_validated [of d_10 d_0_05 "\<lparr>m_target = d_10, m_margin = d_0_05\<rparr>" d_0_1
         "\<lparr>m_target = d_10, m_epsilon = d_0_1\<rparr>" "0x100000000" Float undefined]
      construction_validated [of d_10 "fneg d_0_05" undefined d_0_1 undefined "0x100000000" Double
         "\<lparr>m_target = d_10, m_ulps = 0x100000000, m_type = Double\<rparr>"]
      construction_validated [of d_100 d_0_05 undefined d_0_1
         "\<lparr>m_target = d_100, m_epsilon = d_0_1\<rparr>" "0xFFFFFFFF" Float
         "\<lparr>m_target = d_100, m_ulps = 0xFFFFFFFF, m_type = Float\<rparr>"]
      construction_validated [of one d_0_05 undefined d_0_1 undefined "0x100000000" Float undefined]
      construction_validated [of one d_0_05 undefined d_0_1 undefined "0x100000000" Double
         "\<lparr>m_target = one, m_ulps = 0x100000000, m_type = Double\<rparr>"]
      construction_validated [of one d_0_05 undefined d_0_1 undefined "0xFFFFFFFF" Float
         "\<lparr>m_target = one, m_ulps = 0xFFFFFFFF, m_type = Float\<rparr>"]
    by simp
qed

theorem construction_nan_counterexample:
  "isnan d_nan \<and> \<not> flt d_nan 0 \<and> \<not> fge d_nan one
   \<and> WithinAbsMatcher_new 0 d_nan = Inl Invalid_margin
   \<and> WithinRelMatcher_new 0 d_nan = Inl Epsilon_less_than_0"
  by (simp add: WithinAbsMatcher_new_def WithinRelMatcher_new_def cmp_ctor)

text \<open>
  C9. For a \<^verbatim>\<open>WithinAbsMatcher\<close> or \<^verbatim>\<open>WithinRelMatcher\<close> that was constructed, \<^verbatim>\<open>match\<close> is
  false when the candidate is a NaN, and false for every candidate when the target is a
  NaN. (\<^verbatim>\<open>match\<close> is a total function to \<open>bool\<close>: it raises nothing.)
\<close>

theorem nan_never_matches:
  "(WithinAbsMatcher_new target margin = Inr p \<and> (isnan c \<or> isnan target)
      \<longrightarrow> \<not> WithinAbsMatcher_match p c)
   \<and> (WithinRelMatcher_new target epsilon = Inr q \<and> (isnan c \<or> isnan target)
      \<longrightarrow> \<not> WithinRelMatcher_match q c)"
proof -
  have "\<not> (fge (fadd c m) target \<and> fge (fadd target m) c)" if "isnan c \<or> isnan target" for m
    using that isnan_fadd [of c m] isnan_fadd [of target m] by (auto simp: fge_iff)
  then show ?thesis
    by (auto simp: WithinAbsMatcher_new_def WithinAbsMatcher_match_def WithinRelMatcher_new_def
        WithinRelMatcher_match_def marginComparison_def Let_def split: if_splits)
qed

theorem nan_never_matches_witness:
  "WithinAbsMatcher_new d_10 d_0_05 = Inr \<lparr>m_target = d_10, m_margin = d_0_05\<rparr>
   \<and> isnan d_nan \<and> \<not> WithinAbsMatcher_match \<lparr>m_target = d_10, m_margin = d_0_05\<rparr> d_nan
   \<and> WithinRelMatcher_new d_nan d_0_1 = Inr \<lparr>m_target = d_nan, m_epsilon = d_0_1\<rparr>
   \<and> \<not> WithinRelMatcher_match \<lparr>m_target = d_nan, m_epsilon = d_0_1\<rparr> d_100"
proof -
  have a: "WithinAbsMatcher_new d_10 d_0_05 = Inr \<lparr>m_target = d_10, m_margin = d_0_05\<rparr>"
    by (simp add: WithinAbsMatcher_new_def cmp_abs)
  have r: "WithinRelMatcher_new d_nan d_0_1 = Inr \<lparr>m_target = d_nan, m_epsilon = d_0_1\<rparr>"
    by (simp add: WithinRelMatcher_new_def cmp_rel)
  have n: "isnan d_nan" by (simp add: decode)
  show ?thesis
    using a r n
      nan_never_matches [of d_10 d_0_05 "\<lparr>m_target = d_10, m_margin = d_0_05\<rparr>" d_nan
        d_0_1 "\<lparr>m_target = d_10, m_epsilon = d_0_1\<rparr>"]
      nan_never_matches [of d_nan d_0_05 "\<lparr>m_target = d_nan, m_margin = d_0_05\<rparr>" d_100
        d_0_1 "\<lparr>m_target = d_nan, m_epsilon = d_0_1\<rparr>"]
    by simp
qed

text \<open>
  C10. The relative comparison is symmetric: for matchers constructed with the same
  epsilon, the one with target \<open>x\<close> matches \<open>y\<close> exactly when the one with target \<open>y\<close>
  matches \<open>x\<close>.
\<close>

theorem WithinRel_symmetric:
  "WithinRelMatcher_new x epsilon = Inr p \<and> WithinRelMatcher_new y epsilon = Inr q
     \<longrightarrow> WithinRelMatcher_match p y = WithinRelMatcher_match q x"
proof (cases "isnan x \<or> isnan y")
  case True
  then have "\<not> marginComparison y x m \<and> \<not> marginComparison x y m" for m
    using isnan_fadd [of x m] isnan_fadd [of y m]
    by (auto simp: marginComparison_def fge_iff)
  then show ?thesis
    by (auto simp: WithinRelMatcher_new_def WithinRelMatcher_match_def Let_def split: if_splits)
next
  case False
  then have "fmax (fabs y) (fabs x) = fmax (fabs x) (fabs y)"
    by (simp add: fmax_fabs_commute)
  moreover have "marginComparison y x m = marginComparison x y m" for m
    by (auto simp: marginComparison_def)
  ultimately show ?thesis
    by (auto simp: WithinRelMatcher_new_def WithinRelMatcher_match_def Let_def split: if_splits)
qed

theorem WithinRel_symmetric_witness:
  "WithinRelMatcher_new d_100 d_0_1 = Inr \<lparr>m_target = d_100, m_epsilon = d_0_1\<rparr>
   \<and> WithinRelMatcher_new d_105 d_0_1 = Inr \<lparr>m_target = d_105, m_epsilon = d_0_1\<rparr>
   \<and> WithinRelMatcher_match \<lparr>m_target = d_100, m_epsilon = d_0_1\<rparr> d_105
   \<and> WithinRelMatcher_match \<lparr>m_target = d_105, m_epsilon = d_0_1\<rparr> d_100"
proof -
  have a: "WithinRelMatcher_new d_100 d_0_1 = Inr \<lparr>m_target = d_100, m_epsilon = d_0_1\<rparr>"
    "WithinRelMatcher_new d_105 d_0_1 = Inr \<lparr>m_target = d_105, m_epsilon = d_0_1\<rparr>"
    by (simp_all add: WithinRelMatcher_new_def cmp_rel)
  have m: "WithinRelMatcher_match \<lparr>m_target = d_100, m_epsilon = d_0_1\<rparr> d_105"
    by (simp add: WithinRelMatcher_match_def Let_def marginComparison_def fmax_def cmp_rel arith_rel)
  show ?thesis
    using a m
      WithinRel_symmetric [of d_100 d_0_1 "\<lparr>m_target = d_100, m_epsilon = d_0_1\<rparr>" d_105
        "\<lparr>m_target = d_105, m_epsilon = d_0_1\<rparr>"]
    by simp
qed

section \<open>The description of the ULP matcher, as specified\<close>

text \<open>
  C8, as the code has it. For a matcher that the constructor accepted,
  \<^verbatim>\<open>WithinUlpsMatcher::describe\<close> returns, for the width \<^verbatim>\<open>Double\<close>, the text
  \<^verbatim>\<open>is within <ulps> ULPs of <target> ([<lower>, <upper>])\<close>, and for the width \<^verbatim>\<open>Float\<close> the
  same text of the narrowed target with the letter \<^verbatim>\<open>f\<close> after the target. The bounds are
  \<open>step\<close> of the target towards \<open>-\<infinity>\<close> and \<open>+\<infinity>\<close>, that is \<open>ulps\<close> applications of
  \<open>nextafter\<close>; from a value that is not a NaN they arrive exactly \<open>ulps\<close> patterns below
  and above it, or at the infinity when that is nearer. A finite number is written in
  scientific notation with 17 digits for \<^verbatim>\<open>Double\<close> and 9 for \<^verbatim>\<open>Float\<close>, the first of them not
  0 unless the number is zero; and the number that the text denotes, \<open>read_sci\<close> of it, is
  nearer to the value written than to any other value of the width, so that reading the
  text back to the nearest value recovers the value. The counterexample is the description
  of width \<^verbatim>\<open>Float\<close> for the target 1.0 and 1 ULP, which is not the text of the
  specification because of its \<^verbatim>\<open>f\<close>; and two steps up from the largest finite
  \<^verbatim>\<open>double\<close> end at the infinity, which is written \<^verbatim>\<open>inf\<close>.
\<close>

theorem WithinUlps_describe:
  assumes "WithinUlpsMatcher_new target ulps ty = Inr p"
  shows
  "WithinUlpsMatcher_describe p =
     (case ty of
        Double \<Rightarrow> ''is within '' @ show_nat (unat ulps) @ '' ULPs of '' @ write_num target
          @ '' (['' @ write_num (step target (fneg pinf) ulps) @ '', ''
          @ write_num (step target pinf ulps) @ ''])''
      | Float \<Rightarrow> ''is within '' @ show_nat (unat ulps) @ '' ULPs of ''
          @ write_num (to_float target) @ ''f''
          @ '' (['' @ write_num (step (to_float target) (fneg pinf) ulps) @ '', ''
          @ write_num (step (to_float target) pinf ulps) @ ''])'')
   \<and> (\<forall>x d :: double. step x d ulps = ((\<lambda>s. nextafter s d) ^^ unat ulps) x)
   \<and> (\<forall>x d :: float. step x d ulps = ((\<lambda>s. nextafter s d) ^^ unat ulps) x)
   \<and> (\<forall>x :: double. \<not> isnan x \<longrightarrow>
         key (step x pinf ulps) = min (key x + uint ulps) (key (pinf :: double))
       \<and> key (step x (fneg pinf) ulps) = max (key x - uint ulps) (key (fneg pinf :: double)))
   \<and> (\<forall>x :: float. \<not> isnan x \<longrightarrow>
         key (step x pinf ulps) = min (key x + uint ulps) (key (pinf :: float))
       \<and> key (step x (fneg pinf) ulps) = max (key x - uint ulps) (key (fneg pinf :: float)))
   \<and> (\<forall>x :: double. isfinite x \<longrightarrow>
         write_num x = sci_text 16 (sign x) (fst (decimal_of x)) (snd (decimal_of x))
       \<and> fst (decimal_of x) < 10 ^ 17 \<and> (mag x \<noteq> 0 \<longrightarrow> 10 ^ 16 \<le> fst (decimal_of x))
       \<and> (\<forall>y :: double. valof y \<noteq> valof x \<longrightarrow>
             \<bar>read_sci (write_num x) - valof x\<bar> < \<bar>read_sci (write_num x) - valof y\<bar>))
   \<and> (\<forall>x :: float. isfinite x \<longrightarrow>
         write_num x = sci_text 8 (sign x) (fst (decimal_of x)) (snd (decimal_of x))
       \<and> fst (decimal_of x) < 10 ^ 9 \<and> (mag x \<noteq> 0 \<longrightarrow> 10 ^ 8 \<le> fst (decimal_of x))
       \<and> (\<forall>y :: float. valof y \<noteq> valof x \<longrightarrow>
             \<bar>read_sci (write_num x) - valof x\<bar> < \<bar>read_sci (write_num x) - valof y\<bar>))"
proof -
  have p: "p = \<lparr>m_target = target, m_ulps = ulps, m_type = ty\<rparr>"
    using assms by (simp add: WithinUlpsMatcher_new_def split: if_splits)
  have 1: "WithinUlpsMatcher_describe p =
     (case ty of
        Double \<Rightarrow> ''is within '' @ show_nat (unat ulps) @ '' ULPs of '' @ write_num target
          @ '' (['' @ write_num (step target (fneg pinf) ulps) @ '', ''
          @ write_num (step target pinf ulps) @ ''])''
      | Float \<Rightarrow> ''is within '' @ show_nat (unat ulps) @ '' ULPs of ''
          @ write_num (to_float target) @ ''f''
          @ '' (['' @ write_num (step (to_float target) (fneg pinf) ulps) @ '', ''
          @ write_num (step (to_float target) pinf ulps) @ ''])'')"
    by (cases ty) (simp_all add: p WithinUlpsMatcher_describe_def)
  have 2: "\<forall>x d :: double. step x d ulps = ((\<lambda>s. nextafter s d) ^^ unat ulps) x"
    "\<forall>x d :: float. step x d ulps = ((\<lambda>s. nextafter s d) ^^ unat ulps) x"
    by (simp_all add: step_funpow)
  have 3: "\<forall>x :: double. \<not> isnan x \<longrightarrow>
         key (step x pinf ulps) = min (key x + uint ulps) (key (pinf :: double))
       \<and> key (step x (fneg pinf) ulps) = max (key x - uint ulps) (key (fneg pinf :: double))"
    using step_keys [OF wf_format_64, of _ ulps] by simp
  have 4: "\<forall>x :: float. \<not> isnan x \<longrightarrow>
         key (step x pinf ulps) = min (key x + uint ulps) (key (pinf :: float))
       \<and> key (step x (fneg pinf) ulps) = max (key x - uint ulps) (key (fneg pinf :: float))"
    using step_keys [OF wf_format_32, of _ ulps] by simp
  have 5: "\<forall>x :: double. isfinite x \<longrightarrow>
         write_num x = sci_text 16 (sign x) (fst (decimal_of x)) (snd (decimal_of x))
       \<and> fst (decimal_of x) < 10 ^ 17 \<and> (mag x \<noteq> 0 \<longrightarrow> 10 ^ 16 \<le> fst (decimal_of x))
       \<and> (\<forall>y :: double. valof y \<noteq> valof x \<longrightarrow>
             \<bar>read_sci (write_num x) - valof x\<bar> < \<bar>read_sci (write_num x) - valof y\<bar>)"
  proof (intro allI impI conjI)
    fix x :: double
    assume f: "isfinite x"
    show "write_num x = sci_text 16 (sign x) (fst (decimal_of x)) (snd (decimal_of x))"
      using write_num_finite [OF f] by (simp add: max_digits10_def)
    show "fst (decimal_of x) < 10 ^ 17"
      using decimal_of_bound [of x] by (simp add: max_digits10_def)
    show "10 ^ 16 \<le> fst (decimal_of x)" if "mag x \<noteq> 0"
      using decimal_of_lower [OF that] by (simp add: max_digits10_def)
    show "\<bar>read_sci (write_num x) - valof x\<bar> < \<bar>read_sci (write_num x) - valof y\<bar>"
      if "valof y \<noteq> valof x" for y :: double
      using text_nearest_double [OF that] by (simp only: read_write_num [OF f])
  qed
  have 6: "\<forall>x :: float. isfinite x \<longrightarrow>
         write_num x = sci_text 8 (sign x) (fst (decimal_of x)) (snd (decimal_of x))
       \<and> fst (decimal_of x) < 10 ^ 9 \<and> (mag x \<noteq> 0 \<longrightarrow> 10 ^ 8 \<le> fst (decimal_of x))
       \<and> (\<forall>y :: float. valof y \<noteq> valof x \<longrightarrow>
             \<bar>read_sci (write_num x) - valof x\<bar> < \<bar>read_sci (write_num x) - valof y\<bar>)"
  proof (intro allI impI conjI)
    fix x :: float
    assume f: "isfinite x"
    show "write_num x = sci_text 8 (sign x) (fst (decimal_of x)) (snd (decimal_of x))"
      using write_num_finite [OF f] by (simp add: max_digits10_def)
    show "fst (decimal_of x) < 10 ^ 9"
      using decimal_of_bound [of x] by (simp add: max_digits10_def)
    show "10 ^ 8 \<le> fst (decimal_of x)" if "mag x \<noteq> 0"
      using decimal_of_lower [OF that] by (simp add: max_digits10_def)
    show "\<bar>read_sci (write_num x) - valof x\<bar> < \<bar>read_sci (write_num x) - valof y\<bar>"
      if "valof y \<noteq> valof x" for y :: float
      using text_nearest_float [OF that] by (simp only: read_write_num [OF f])
  qed
  from 1 2 3 4 5 6 show ?thesis by (intro conjI)
qed

theorem WithinUlps_describe_witness:
  "WithinUlpsMatcher_new one 1 Double = Inr \<lparr>m_target = one, m_ulps = 1, m_type = Double\<rparr>
   \<and> WithinUlpsMatcher_describe \<lparr>m_target = one, m_ulps = 1, m_type = Double\<rparr>
       = ''is within 1 ULPs of 1.0000000000000000e+00 ([9.9999999999999989e-01, 1.0000000000000002e+00])''
   \<and> step one (fneg pinf) 1 = 0x3FEFFFFFFFFFFFFF \<and> step one pinf 1 = 0x3FF0000000000001
   \<and> \<not> isnan one
   \<and> key (step one pinf 1) = key one + 1 \<and> key (step one (fneg pinf) 1) = key one - 1
   \<and> isfinite one \<and> valof (0x3FF0000000000001 :: double) \<noteq> valof one
   \<and> \<bar>read_sci ''1.0000000000000000e+00'' - valof one\<bar>
       < \<bar>read_sci ''1.0000000000000000e+00'' - valof (0x3FF0000000000001 :: double)\<bar>"
proof -
  have nw: "WithinUlpsMatcher_new one 1 Double = Inr \<lparr>m_target = one, m_ulps = 1, m_type = Double\<rparr>"
    by (simp add: WithinUlpsMatcher_new_def)
  note T = WithinUlps_describe [OF nw]
  have d: "WithinUlpsMatcher_describe \<lparr>m_target = one, m_ulps = 1, m_type = Double\<rparr>
       = ''is within 1 ULPs of 1.0000000000000000e+00 ([9.9999999999999989e-01, 1.0000000000000002e+00])''"
    using T by (simp add: ex_step_d ex_text_d ex_show)
  have n: "\<not> isnan one" "isfinite one"
    by (simp_all add: decode one_def isfinite_iff infm_64)
  have k: "key one = 0x3FF0000000000000" "key (pinf :: double) = 0x7FF0000000000000"
    "key (0x3FF0000000000001 :: double) = 0x3FF0000000000001"
    by (simp_all add: key_def mag_def sign_def one_def pinf_64)
  from T have "\<forall>x :: double. \<not> isnan x \<longrightarrow>
         key (step x pinf 1) = min (key x + uint (1 :: 64 word)) (key (pinf :: double))
       \<and> key (step x (fneg pinf) 1) = max (key x - uint (1 :: 64 word)) (key (fneg pinf :: double))"
    by (elim conjE)
  then have s: "key (step one pinf 1) = key one + 1" "key (step one (fneg pinf) 1) = key one - 1"
    using n by (simp_all add: k key_fneg)
  have v: "valof (0x3FF0000000000001 :: double) \<noteq> valof one"
    by (simp add: valof_eq_iff k)
  from T have "\<forall>x :: double. isfinite x \<longrightarrow>
         write_num x = sci_text 16 (sign x) (fst (decimal_of x)) (snd (decimal_of x))
       \<and> fst (decimal_of x) < 10 ^ 17 \<and> (mag x \<noteq> 0 \<longrightarrow> 10 ^ 16 \<le> fst (decimal_of x))
       \<and> (\<forall>y :: double. valof y \<noteq> valof x \<longrightarrow>
             \<bar>read_sci (write_num x) - valof x\<bar> < \<bar>read_sci (write_num x) - valof y\<bar>)"
    by (elim conjE)
  then have "\<bar>read_sci (write_num one) - valof one\<bar>
      < \<bar>read_sci (write_num one) - valof (0x3FF0000000000001 :: double)\<bar>"
    using n v by blast
  then have r: "\<bar>read_sci ''1.0000000000000000e+00'' - valof one\<bar>
       < \<bar>read_sci ''1.0000000000000000e+00'' - valof (0x3FF0000000000001 :: double)\<bar>"
    by (simp only: ex_text_d)
  from nw d ex_step_d n s v r show ?thesis by (intro conjI)
qed

theorem WithinUlps_describe_float_counterexample:
  "WithinUlpsMatcher_new one 1 Float = Inr \<lparr>m_target = one, m_ulps = 1, m_type = Float\<rparr>
   \<and> WithinUlpsMatcher_describe \<lparr>m_target = one, m_ulps = 1, m_type = Float\<rparr>
       = ''is within 1 ULPs of 1.00000000e+00f ([9.99999940e-01, 1.00000012e+00])''
   \<and> describe_spec \<lparr>m_target = one, m_ulps = 1, m_type = Float\<rparr>
       = ''is within 1 ULPs of 1.00000000e+00 ([9.99999940e-01, 1.00000012e+00])''
   \<and> WithinUlpsMatcher_describe \<lparr>m_target = one, m_ulps = 1, m_type = Float\<rparr>
       \<noteq> describe_spec \<lparr>m_target = one, m_ulps = 1, m_type = Float\<rparr>
   \<and> step (0x7FEFFFFFFFFFFFFF :: double) pinf 2 = 0x7FF0000000000000
   \<and> write_num (0x7FF0000000000000 :: double) = ''inf''"
proof -
  have nw: "WithinUlpsMatcher_new one 1 Float = Inr \<lparr>m_target = one, m_ulps = 1, m_type = Float\<rparr>"
    by (simp add: WithinUlpsMatcher_new_def)
  have d: "WithinUlpsMatcher_describe \<lparr>m_target = one, m_ulps = 1, m_type = Float\<rparr>
       = ''is within 1 ULPs of 1.00000000e+00f ([9.99999940e-01, 1.00000012e+00])''"
    by (simp add: WithinUlpsMatcher_describe_def ex_to_float ex_step_f ex_text_f ex_show)
  have s: "describe_spec \<lparr>m_target = one, m_ulps = 1, m_type = Float\<rparr>
       = ''is within 1 ULPs of 1.00000000e+00 ([9.99999940e-01, 1.00000012e+00])''"
    by (simp add: describe_spec_def ex_to_float ex_step_f ex_text_f ex_show)
  have ne: "WithinUlpsMatcher_describe \<lparr>m_target = one, m_ulps = 1, m_type = Float\<rparr>
       \<noteq> describe_spec \<lparr>m_target = one, m_ulps = 1, m_type = Float\<rparr>"
    by (simp only: d s) simp
  from nw d s ne ex_step_sat ex_text_inf show ?thesis by (intro conjI)
qed

end
